theory Spec2Isabelle
  imports Main "HOL-Library.Word" "HOL-Library.Monad_Syntax"
begin

unbundle bit_operations_syntax

declare Option.bind_cong [fundef_cong]

section \<open>The big_integer data model (big_integer.h, big_integer.c)\<close>

text \<open>
  A \<open>big_integer\<close> is the C struct \<open>{bool sign; size_t length; uint8_t *mem}\<close>.
  The field \<open>length\<close> is set once by \<open>create_big_integer\<close> to the number of
  allocated bytes and never written again, so the model keeps the byte buffer as a list and
  reads \<open>length\<close> off it (\<open>big_length\<close>).  \<open>mem ! 0\<close> is the least significant byte.

  Every function that the C code can leave through \<open>abort_err\<close>/\<open>exit\<close>, or in
  which it would touch memory outside a buffer, returns an \<open>option\<close>: \<open>None\<close> stands
  for "the call does not return normally".
\<close>

type_synonym uint8_t = "8 word"
type_synonym uint16_t = "16 word"
type_synonym uint64_t = "64 word"

record big_integer =
  sign :: bool
  mem :: "uint8_t list"

definition big_length :: "big_integer \<Rightarrow> nat" where
  "big_length v = length (mem v)"

definition create_big_integer :: "nat \<Rightarrow> bool \<Rightarrow> big_integer" where
  "create_big_integer bytes sgn_flag = \<lparr>sign = sgn_flag, mem = replicate bytes 0\<rparr>"

definition get_byte_value_of_big_integer :: "big_integer \<Rightarrow> nat \<Rightarrow> uint8_t option" where
  "get_byte_value_of_big_integer big_int index =
     (if index < big_length big_int then Some (mem big_int ! index) else None)"

definition set_byte_value_of_big_integer ::
  "big_integer \<Rightarrow> nat \<Rightarrow> uint8_t \<Rightarrow> big_integer option" where
  "set_byte_value_of_big_integer big_int index v =
     (if index < big_length big_int then Some (big_int\<lparr>mem := (mem big_int)[index := v]\<rparr>)
      else None)"

text \<open>
  \<open>memcpy\<close> between the byte buffer and a 64-bit or 128-bit register on the
  little-endian target: \<open>le_val\<close> is the number a run of bytes denotes, \<open>le_bytes n\<close>
  the \<open>n\<close> low bytes of a number.
\<close>

fun le_val :: "uint8_t list \<Rightarrow> nat" where
  "le_val [] = 0"
| "le_val (b # bs) = unat b + 256 * le_val bs"

fun le_bytes :: "nat \<Rightarrow> nat \<Rightarrow> uint8_t list" where
  "le_bytes 0 v = []"
| "le_bytes (Suc n) v = of_nat v # le_bytes n (v div 256)"

definition get_7_bytes__of_big_integer :: "big_integer \<Rightarrow> nat \<Rightarrow> uint64_t option" where
  "get_7_bytes__of_big_integer big_int index =
     (if index + 6 \<ge> big_length big_int then None
      else Some (of_nat (le_val (take 7 (drop index (mem big_int))))))"

definition set_7_bytes__of_big_integer ::
  "big_integer \<Rightarrow> nat \<Rightarrow> uint64_t \<Rightarrow> big_integer option" where
  "set_7_bytes__of_big_integer big_int index v =
     (if index + 6 \<ge> big_length big_int then None
      else Some (big_int\<lparr>mem := take index (mem big_int) @ le_bytes 7 (unat v)
                                   @ drop (index + 7) (mem big_int)\<rparr>))"

text \<open>An \<open>__m128i\<close> register as its two 64-bit lanes (lane 0 holds bits 0..63).\<close>

record m128i =
  lane0 :: uint64_t
  lane1 :: uint64_t

definition get_15_bytes__of_big_integer :: "big_integer \<Rightarrow> nat \<Rightarrow> m128i option" where
  "get_15_bytes__of_big_integer big_int index =
     (if index + 14 \<ge> big_length big_int then None
      else Some \<lparr>lane0 = of_nat (le_val (take 8 (drop index (mem big_int)))),
                 lane1 = of_nat (le_val (take 7 (drop (index + 8) (mem big_int))))\<rparr>)"

definition set_15_bytes__of_big_integer ::
  "big_integer \<Rightarrow> nat \<Rightarrow> m128i \<Rightarrow> big_integer option" where
  "set_15_bytes__of_big_integer big_int index v =
     (if index + 14 \<ge> big_length big_int then None
      else Some (big_int\<lparr>mem := take index (mem big_int) @ le_bytes 8 (unat (lane0 v))
                                   @ le_bytes 7 (unat (lane1 v))
                                   @ drop (index + 15) (mem big_int)\<rparr>))"

subsection \<open>The SSE intrinsics the code uses\<close>

definition mm_set_epi64x :: "uint64_t \<Rightarrow> uint64_t \<Rightarrow> m128i" where
  "mm_set_epi64x e1 e0 = \<lparr>lane0 = e0, lane1 = e1\<rparr>"

definition mm_and_si128 :: "m128i \<Rightarrow> m128i \<Rightarrow> m128i" where
  "mm_and_si128 a b = \<lparr>lane0 = lane0 a AND lane0 b, lane1 = lane1 a AND lane1 b\<rparr>"

definition mm_or_si128 :: "m128i \<Rightarrow> m128i \<Rightarrow> m128i" where
  "mm_or_si128 a b = \<lparr>lane0 = lane0 a OR lane0 b, lane1 = lane1 a OR lane1 b\<rparr>"

definition mm_add_epi64 :: "m128i \<Rightarrow> m128i \<Rightarrow> m128i" where
  "mm_add_epi64 a b = \<lparr>lane0 = lane0 a + lane0 b, lane1 = lane1 a + lane1 b\<rparr>"

definition mm_sub_epi64 :: "m128i \<Rightarrow> m128i \<Rightarrow> m128i" where
  "mm_sub_epi64 a b = \<lparr>lane0 = lane0 a - lane0 b, lane1 = lane1 a - lane1 b\<rparr>"

definition mm_cmpeq_epi64 :: "m128i \<Rightarrow> m128i \<Rightarrow> m128i" where
  "mm_cmpeq_epi64 a b =
     \<lparr>lane0 = (if lane0 a = lane0 b then 0xFFFFFFFFFFFFFFFF else 0),
      lane1 = (if lane1 a = lane1 b then 0xFFFFFFFFFFFFFFFF else 0)\<rparr>"

definition mm_cmpgt_epi64 :: "m128i \<Rightarrow> m128i \<Rightarrow> m128i" where
  "mm_cmpgt_epi64 a b =
     \<lparr>lane0 = (if sint (lane0 a) > sint (lane0 b) then 0xFFFFFFFFFFFFFFFF else 0),
      lane1 = (if sint (lane1 a) > sint (lane1 b) then 0xFFFFFFFFFFFFFFFF else 0)\<rparr>"

definition mm_testz_si128 :: "m128i \<Rightarrow> m128i \<Rightarrow> bool" where
  "mm_testz_si128 a b \<longleftrightarrow> lane0 a AND lane0 b = 0 \<and> lane1 a AND lane1 b = 0"

text \<open>\<open>_mm_extract_epi8(v, 0)\<close> and \<open>_mm_extract_epi16(v, 7)\<close>, the two uses in the code.\<close>

definition mm_extract_epi8_0 :: "m128i \<Rightarrow> uint8_t" where
  "mm_extract_epi8_0 v = ucast (lane0 v)"

definition mm_extract_epi16_7 :: "m128i \<Rightarrow> uint16_t" where
  "mm_extract_epi16_7 v = ucast (drop_bit 48 (lane1 v))"

subsection \<open>Copies, zero test, equality, negation\<close>

definition get_most_significant_bit :: "big_integer \<Rightarrow> bool option" where
  "get_most_significant_bit v =
     (if big_length v = 0 then None
      else do { byte \<leftarrow> get_byte_value_of_big_integer v (big_length v - 1);
                Some (byte AND 0x80 \<noteq> 0) })"

definition clone_big_integer :: "big_integer \<Rightarrow> big_integer" where
  "clone_big_integer og = \<lparr>sign = sign og, mem = mem og\<rparr>"

function set_zero_loop :: "big_integer \<Rightarrow> nat \<Rightarrow> big_integer option" where
  "set_zero_loop v i =
     (if i < big_length v then
        do { v' \<leftarrow> set_byte_value_of_big_integer v i 0; set_zero_loop v' (i + 1) }
      else Some v)"
  by pat_completeness auto
termination
  by (relation "measure (\<lambda>(v, i). big_length v - i)")
     (auto simp: set_byte_value_of_big_integer_def big_length_def split: if_splits)

declare set_zero_loop.simps [simp del]

definition set_zero :: "big_integer \<Rightarrow> big_integer option" where
  "set_zero v = do { v' \<leftarrow> set_zero_loop v 0; Some (v'\<lparr>sign := False\<rparr>) }"

text \<open>
  \<open>copy_big_integer_value_into_another\<close>: clear the destination, copy the sign and
  \<open>min(source->length, destination->length)\<close> bytes.
\<close>

definition copy_big_integer_value_into_another ::
  "big_integer \<Rightarrow> big_integer \<Rightarrow> big_integer option" where
  "copy_big_integer_value_into_another source destination =
     do { d \<leftarrow> set_zero destination;
          let n = min (big_length source) (big_length d) in
          Some (d\<lparr>sign := sign source, mem := take n (mem source) @ drop n (mem d)\<rparr>) }"

text \<open>
  \<open>clone_big_integer_add_size\<close>: the new buffer has \<open>og->length + add_size\<close> bytes
  in \<open>size_t\<close> arithmetic (64 bit); \<open>memcpy\<close> then copies \<open>og->length\<close> bytes into
  it, which runs over the end of the new buffer when the sum wrapped around.
\<close>

definition clone_big_integer_add_size :: "big_integer \<Rightarrow> nat \<Rightarrow> big_integer option" where
  "clone_big_integer_add_size og add_size =
     (let n = (big_length og + add_size) mod 2 ^ 64 in
      if big_length og \<le> n
      then Some \<lparr>sign = sign og, mem = mem og @ replicate (n - big_length og) 0\<rparr>
      else None)"

function big_integer_is_zero_sisd_loop :: "big_integer \<Rightarrow> nat \<Rightarrow> bool option" where
  "big_integer_is_zero_sisd_loop v i =
     (if i < big_length v then
        do { byte \<leftarrow> get_byte_value_of_big_integer v i;
             if byte \<noteq> 0 then Some False else big_integer_is_zero_sisd_loop v (i + 1) }
      else Some True)"
  by pat_completeness auto
termination
  by (relation "measure (\<lambda>(v, i). big_length v - i)") auto

declare big_integer_is_zero_sisd_loop.simps [simp del]

function big_integer_is_zero_simd_loop7 :: "big_integer \<Rightarrow> nat \<Rightarrow> bool option" where
  "big_integer_is_zero_simd_loop7 v i =
     (if i + 6 < big_length v then
        do { byte7 \<leftarrow> get_7_bytes__of_big_integer v i;
             if byte7 \<noteq> 0 then Some False else big_integer_is_zero_simd_loop7 v (i + 7) }
      else big_integer_is_zero_sisd_loop v i)"
  by pat_completeness auto
termination
  by (relation "measure (\<lambda>(v, i). big_length v - i)") auto

declare big_integer_is_zero_simd_loop7.simps [simp del]

function big_integer_is_zero_simd_loop15 :: "big_integer \<Rightarrow> nat \<Rightarrow> bool option" where
  "big_integer_is_zero_simd_loop15 v i =
     (if i + 14 < big_length v then
        do { vector \<leftarrow> get_15_bytes__of_big_integer v i;
             if \<not> mm_testz_si128 vector vector then Some False
             else big_integer_is_zero_simd_loop15 v (i + 15) }
      else big_integer_is_zero_simd_loop7 v i)"
  by pat_completeness auto
termination
  by (relation "measure (\<lambda>(v, i). big_length v - i)") auto

declare big_integer_is_zero_simd_loop15.simps [simp del]

definition big_integer_is_zero_simd :: "big_integer \<Rightarrow> bool option" where
  "big_integer_is_zero_simd v = big_integer_is_zero_simd_loop15 v 0"

definition big_integer_is_zero :: "big_integer \<Rightarrow> bool \<Rightarrow> bool option" where
  "big_integer_is_zero v simd =
     (if simd then big_integer_is_zero_simd v else big_integer_is_zero_sisd_loop v 0)"

function big_integer_is_equal_loop :: "big_integer \<Rightarrow> big_integer \<Rightarrow> nat \<Rightarrow> bool option" where
  "big_integer_is_equal_loop a b i =
     (if i < big_length a \<or> i < big_length b then
        if i < big_length a \<and> i < big_length b then
          do { x \<leftarrow> get_byte_value_of_big_integer a i;
               y \<leftarrow> get_byte_value_of_big_integer b i;
               if x \<noteq> y then Some False else big_integer_is_equal_loop a b (i + 1) }
        else
          do { ra \<leftarrow> (if i < big_length a
                       then do { x \<leftarrow> get_byte_value_of_big_integer a i; Some (x \<noteq> 0) }
                       else Some False);
               if ra then Some False
               else do {
                 rb \<leftarrow> (if i < big_length b
                         then do { y \<leftarrow> get_byte_value_of_big_integer b i; Some (y \<noteq> 0) }
                         else Some False);
                 if rb then Some False else big_integer_is_equal_loop a b (i + 1) } }
      else Some True)"
  by pat_completeness auto
termination
  by (relation "measure (\<lambda>(a, b, i). max (big_length a) (big_length b) - i)") auto

declare big_integer_is_equal_loop.simps [simp del]

definition big_integer_is_equal :: "big_integer \<Rightarrow> big_integer \<Rightarrow> bool option" where
  "big_integer_is_equal a b =
     (if sign a \<noteq> sign b then Some False
      else do {
        za \<leftarrow> big_integer_is_zero_simd a;
        zb \<leftarrow> (if za then big_integer_is_zero_simd b else Some False);
        if za \<and> zb then Some True else big_integer_is_equal_loop a b 0 })"

definition negate_big_integer :: "big_integer \<Rightarrow> big_integer" where
  "negate_big_integer v = v\<lparr>sign := \<not> sign v\<rparr>"

fun all_zero :: "uint8_t list \<Rightarrow> bool" where
  "all_zero [] = True"
| "all_zero (b # bs) = (b = 0 \<and> all_zero bs)"

lemma unat_u8_lt: "unat (b :: uint8_t) < 256"
  using unsigned_less [of b, where ?'a = nat] by simp

lemma le_val_bound: "le_val bs < 256 ^ length bs"
proof (induction bs)
  case Nil
  show ?case by simp
next
  case (Cons a bs)
  have "unat a < 256" by (rule unat_u8_lt)
  moreover have "le_val bs + 1 \<le> 256 ^ length bs" using Cons by simp
  then have "256 * (le_val bs + 1) \<le> 256 * 256 ^ length bs" by (rule mult_le_mono2)
  ultimately show ?case by simp
qed

lemma le_val_eq_0_iff: "le_val bs = 0 \<longleftrightarrow> all_zero bs"
  by (induction bs) (auto simp: unat_0_iff)

lemma all_zero_append: "all_zero (xs @ ys) \<longleftrightarrow> all_zero xs \<and> all_zero ys"
  by (induction xs) auto

lemma all_zero_drop_Suc: "i < length xs \<Longrightarrow> all_zero (drop i xs) \<longleftrightarrow> xs ! i = 0 \<and> all_zero (drop (Suc i) xs)"
  by (simp add: Cons_nth_drop_Suc[symmetric])

lemma sisd_loop: "big_integer_is_zero_sisd_loop v i = Some (all_zero (drop i (mem v)))"
proof (induction v i rule: big_integer_is_zero_sisd_loop.induct)
  case (1 v i)
  show ?case
  proof (cases "i < big_length v")
    case True
    then show ?thesis using 1
      by (subst big_integer_is_zero_sisd_loop.simps) (auto simp: get_byte_value_of_big_integer_def big_length_def all_zero_drop_Suc)
  next
    case False
    then show ?thesis by (subst big_integer_is_zero_sisd_loop.simps) (simp add: big_length_def)
  qed
qed

lemma all_zero_take_drop: "all_zero (take n xs) \<and> all_zero (drop n xs) \<longleftrightarrow> all_zero xs"
  using all_zero_append [of "take n xs" "drop n xs"] by simp

lemma of_nat_le_val_eq_0_iff:
  assumes "length bs \<le> 8"
  shows "(of_nat (le_val bs) :: uint64_t) = 0 \<longleftrightarrow> all_zero bs"
proof -
  have "le_val bs < 256 ^ length bs" by (rule le_val_bound)
  also have "\<dots> \<le> (256 :: nat) ^ 8" using assms by (intro power_increasing) auto
  finally have "le_val bs < 2 ^ LENGTH(64)" by simp
  then have "unat (of_nat (le_val bs) :: uint64_t) = le_val bs"
    by (simp add: unat_of_nat)
  then have "(of_nat (le_val bs) :: uint64_t) = 0 \<longleftrightarrow> le_val bs = 0"
    by (metis unat_0_iff)
  then show ?thesis by (simp add: le_val_eq_0_iff)
qed

lemma drop_add_take: "drop i xs = take k (drop i xs) @ drop (i + k) xs"
  by (metis add.commute append_take_drop_id drop_drop)

lemma all_zero_drop_split:
  "all_zero (drop i xs) \<longleftrightarrow> all_zero (take k (drop i xs)) \<and> all_zero (drop (i + k) xs)"
  using all_zero_append [of "take k (drop i xs)" "drop (i + k) xs"] drop_add_take [of i xs k]
  by simp

lemma simd_loop7: "big_integer_is_zero_simd_loop7 v i = Some (all_zero (drop i (mem v)))"
proof (induction v i rule: big_integer_is_zero_simd_loop7.induct)
  case (1 v i)
  show ?case
  proof (cases "i + 6 < big_length v")
    case True
    have g: "get_7_bytes__of_big_integer v i = Some (of_nat (le_val (take 7 (drop i (mem v)))))"
      using True by (simp add: get_7_bytes__of_big_integer_def)
    have z: "((of_nat (le_val (take 7 (drop i (mem v)))) :: uint64_t) = 0)
         = all_zero (take 7 (drop i (mem v)))"
      by (rule of_nat_le_val_eq_0_iff) simp
    show ?thesis
    proof (cases "all_zero (take 7 (drop i (mem v)))")
      case True
      then show ?thesis using \<open>i + 6 < big_length v\<close> 1 [OF \<open>i + 6 < big_length v\<close> g] z
        by (subst big_integer_is_zero_simd_loop7.simps)
           (simp add: g all_zero_drop_split [of i _ 7])
    next
      case False
      then show ?thesis using \<open>i + 6 < big_length v\<close> z
        by (subst big_integer_is_zero_simd_loop7.simps)
           (simp add: g all_zero_drop_split [of i _ 7])
    qed
  next
    case False
    then show ?thesis
      by (subst big_integer_is_zero_simd_loop7.simps) (simp add: sisd_loop)
  qed
qed

lemma simd_loop15: "big_integer_is_zero_simd_loop15 v i = Some (all_zero (drop i (mem v)))"
proof (induction v i rule: big_integer_is_zero_simd_loop15.induct)
  case (1 v i)
  show ?case
  proof (cases "i + 14 < big_length v")
    case True
    define vec where "vec = \<lparr>lane0 = (of_nat (le_val (take 8 (drop i (mem v)))) :: uint64_t),
                 lane1 = of_nat (le_val (take 7 (drop (i + 8) (mem v))))\<rparr>"
    have g: "get_15_bytes__of_big_integer v i = Some vec"
      using True by (simp add: get_15_bytes__of_big_integer_def vec_def)
    have z0: "(lane0 vec = 0) = all_zero (take 8 (drop i (mem v)))"
      unfolding vec_def by (simp add: of_nat_le_val_eq_0_iff)
    have z1: "(lane1 vec = 0) = all_zero (take 7 (drop (i + 8) (mem v)))"
      unfolding vec_def by (simp add: of_nat_le_val_eq_0_iff)
    have tz: "mm_testz_si128 vec vec \<longleftrightarrow>
       all_zero (take 8 (drop i (mem v))) \<and> all_zero (take 7 (drop (i + 8) (mem v)))"
      by (simp add: mm_testz_si128_def z0 z1)
    have sp: "all_zero (drop i (mem v)) \<longleftrightarrow>
        all_zero (take 8 (drop i (mem v))) \<and> all_zero (take 7 (drop (i + 8) (mem v)))
        \<and> all_zero (drop (i + 15) (mem v))"
      using all_zero_drop_split [of i "mem v" 8] all_zero_drop_split [of "i + 8" "mem v" 7]
      by (simp add: add.assoc)
    show ?thesis
    proof (cases "mm_testz_si128 vec vec")
      case True
      then show ?thesis using \<open>i + 14 < big_length v\<close> 1 [OF \<open>i + 14 < big_length v\<close> g] tz sp
        by (subst big_integer_is_zero_simd_loop15.simps) (simp add: g)
    next
      case False
      then show ?thesis using \<open>i + 14 < big_length v\<close> tz sp
        by (subst big_integer_is_zero_simd_loop15.simps) (auto simp add: g)
    qed
  next
    case False
    then show ?thesis
      by (subst big_integer_is_zero_simd_loop15.simps) (simp add: simd_loop7)
  qed
qed

lemma big_integer_is_zero_eq: "big_integer_is_zero v simd = Some (all_zero (mem v))"
  by (simp add: big_integer_is_zero_def big_integer_is_zero_simd_def simd_loop15 sisd_loop)

subsection \<open>Equality of big integers\<close>

definition pad_mag :: "nat \<Rightarrow> uint8_t list \<Rightarrow> uint8_t list" where
  "pad_mag n xs = xs @ replicate (n - length xs) 0"

text \<open>Byte-wise equal magnitudes, where missing high-order bytes count as zero.\<close>

definition same_magnitude :: "big_integer \<Rightarrow> big_integer \<Rightarrow> bool" where
  "same_magnitude a b =
     (pad_mag (max (big_length a) (big_length b)) (mem a)
      = pad_mag (max (big_length a) (big_length b)) (mem b))"

text \<open>Equality as the specification words it: equal magnitude and sign, except that two zero
  magnitudes are equal whatever their sign flags.\<close>

definition equals_spec :: "big_integer \<Rightarrow> big_integer \<Rightarrow> bool" where
  "equals_spec a b =
     ((all_zero (mem a) \<and> all_zero (mem b)) \<or> (sign a = sign b \<and> same_magnitude a b))"

lemma length_pad_mag: "length xs \<le> n \<Longrightarrow> length (pad_mag n xs) = n"
  by (simp add: pad_mag_def)

lemma pad_mag_nth:
  "length xs \<le> n \<Longrightarrow> i < n \<Longrightarrow> pad_mag n xs ! i = (if i < length xs then xs ! i else 0)"
  by (simp add: pad_mag_def nth_append)

lemma all_zero_replicate: "all_zero xs \<longleftrightarrow> xs = replicate (length xs) 0"
  by (induction xs) auto

lemma all_zero_pad_mag:
  "length xs \<le> n \<Longrightarrow> all_zero xs \<Longrightarrow> pad_mag n xs = replicate n 0"
proof -
  assume a: "length xs \<le> n" "all_zero xs"
  then have "xs = replicate (length xs) 0" by (simp add: all_zero_replicate [symmetric])
  then have "pad_mag n xs = replicate (length xs) 0 @ replicate (n - length xs) 0"
    by (simp add: pad_mag_def)
  also have "\<dots> = replicate n 0" using a by (simp flip: replicate_add)
  finally show ?thesis .
qed

lemma big_integer_is_equal_loop_eq:
  "big_integer_is_equal_loop a b i =
     Some (drop i (pad_mag (max (big_length a) (big_length b)) (mem a))
         = drop i (pad_mag (max (big_length a) (big_length b)) (mem b)))"
proof (induction a b i rule: big_integer_is_equal_loop.induct)
  case (1 a b i)
  define n where "n = max (big_length a) (big_length b)"
  have la: "length (mem a) \<le> n" and lb: "length (mem b) \<le> n"
    by (simp_all add: n_def big_length_def)
  show ?case
  proof (cases "i < n")
    case False
    then have "\<not> i < big_length a" "\<not> i < big_length b" by (auto simp: n_def)
    then show ?thesis using False
      by (subst big_integer_is_equal_loop.simps)
         (simp add: n_def [symmetric] length_pad_mag la lb)
  next
    case True
    have da: "drop i (pad_mag n (mem a)) = pad_mag n (mem a) ! i # drop (Suc i) (pad_mag n (mem a))"
      using True la by (simp add: Cons_nth_drop_Suc length_pad_mag)
    have db: "drop i (pad_mag n (mem b)) = pad_mag n (mem b) ! i # drop (Suc i) (pad_mag n (mem b))"
      using True lb by (simp add: Cons_nth_drop_Suc length_pad_mag)
    have na: "pad_mag n (mem a) ! i = (if i < big_length a then mem a ! i else 0)"
      using True la by (simp add: pad_mag_nth big_length_def)
    have nb: "pad_mag n (mem b) ! i = (if i < big_length b then mem b ! i else 0)"
      using True lb by (simp add: pad_mag_nth big_length_def)
    have c: "i < big_length a \<or> i < big_length b" using True by (auto simp: n_def)
    show ?thesis
    proof (cases "i < big_length a \<and> i < big_length b")
      case both: True
      show ?thesis
      proof (cases "mem a ! i = mem b ! i")
        case True
        then show ?thesis using both c "1.IH"(1) [of "mem a ! i" "mem b ! i"]
          by (subst big_integer_is_equal_loop.simps)
             (simp add: n_def [symmetric] da db na nb get_byte_value_of_big_integer_def)
      next
        case False
        then show ?thesis using both c
          by (subst big_integer_is_equal_loop.simps)
             (simp add: n_def [symmetric] da db na nb get_byte_value_of_big_integer_def)
      qed
    next
      case one: False
      show ?thesis
      proof (cases "i < big_length a")
        case True
        then have nbl: "\<not> i < big_length b" using one by simp
        show ?thesis
        proof (cases "mem a ! i = 0")
          case z: True
          then show ?thesis using True nbl c one "1.IH"(2) [of False False]
            by (subst big_integer_is_equal_loop.simps)
               (simp add: n_def [symmetric] da db na nb get_byte_value_of_big_integer_def)
        next
          case False
          then show ?thesis using True nbl c one
            by (subst big_integer_is_equal_loop.simps)
               (simp add: n_def [symmetric] da db na nb get_byte_value_of_big_integer_def)
        qed
      next
        case False
        then have bl: "i < big_length b" using c by simp
        show ?thesis
        proof (cases "mem b ! i = 0")
          case z: True
          then show ?thesis using False bl c one "1.IH"(2) [of False False]
            by (subst big_integer_is_equal_loop.simps)
               (simp add: n_def [symmetric] da db na nb get_byte_value_of_big_integer_def)
        next
          case nz: False
          then show ?thesis using False bl c one
            by (subst big_integer_is_equal_loop.simps)
               (auto simp add: n_def [symmetric] da db na nb get_byte_value_of_big_integer_def)
        qed
      qed
    qed
  qed
qed

text \<open>
  Claim C5, as the code has it: \<open>big_integer_is_equal\<close> always returns, and returns true
  exactly when the two sign flags are identical and the magnitudes are byte-wise equal (missing
  high-order bytes read as zero).  The signs are compared first, so \<open>+0\<close> and \<open>-0\<close> are
  not equal.
\<close>

theorem big_integer_is_equal_correct:
  "big_integer_is_equal a b = Some (sign a = sign b \<and> same_magnitude a b)"
proof (cases "sign a = sign b")
  case False
  then show ?thesis by (simp add: big_integer_is_equal_def)
next
  case True
  show ?thesis
  proof (cases "all_zero (mem a) \<and> all_zero (mem b)")
    case z: True
    then have "same_magnitude a b"
      by (simp add: same_magnitude_def all_zero_pad_mag big_length_def)
    then show ?thesis using True z
      by (simp add: big_integer_is_equal_def big_integer_is_zero_simd_def simd_loop15)
  next
    case False
    then show ?thesis using True
      by (auto simp add: big_integer_is_equal_def big_integer_is_zero_simd_def simd_loop15
            big_integer_is_equal_loop_eq same_magnitude_def)
  qed
qed

text \<open>
  Claim C5 as stated fails: for \<open>+0\<close> and \<open>-0\<close> (one zero byte each) the specification's
  equality holds, while the code returns false.
\<close>

theorem big_integer_is_equal_signed_zero_counterexample:
  "big_integer_is_equal \<lparr>sign = False, mem = [0]\<rparr> \<lparr>sign = True, mem = [0]\<rparr> = Some False
   \<and> equals_spec \<lparr>sign = False, mem = [0]\<rparr> \<lparr>sign = True, mem = [0]\<rparr>"
  by (simp add: big_integer_is_equal_def equals_spec_def)

section \<open>Arithmetic on big integers (big_integer_arithmetic.c)\<close>

type_synonym int16_t = "16 word"

text \<open>The signed value a \<open>big_integer\<close> denotes (sign and magnitude).\<close>

definition big_magnitude :: "big_integer \<Rightarrow> nat" where
  "big_magnitude v = le_val (mem v)"

definition big_value :: "big_integer \<Rightarrow> int" where
  "big_value v = (if sign v then - int (big_magnitude v) else int (big_magnitude v))"

subsection \<open>Increment\<close>

function big_integer_increment_loop :: "bool \<Rightarrow> big_integer \<Rightarrow> nat \<Rightarrow> big_integer option" where
  "big_integer_increment_loop neg v i =
     (if i < big_length v then
        do { byte \<leftarrow> get_byte_value_of_big_integer v i;
             if \<not> neg then
               do { let inc = (ucast byte + 1 :: uint16_t);
                    v' \<leftarrow> set_byte_value_of_big_integer v i (ucast inc);
                    let carry = (drop_bit 8 inc \<noteq> 0);
                    if \<not> carry then Some v' else big_integer_increment_loop neg v' (i + 1) }
             else if byte = 0 then big_integer_increment_loop neg v (i + 1)
             else do { v' \<leftarrow> set_byte_value_of_big_integer v i (byte - 1);
                       big_integer_increment_loop neg v' (i + 1) } }
      else Some v)"
  by pat_completeness auto
termination
  by (relation "measure (\<lambda>(neg, v, i). big_length v - i)")
     (auto simp: set_byte_value_of_big_integer_def big_length_def split: if_splits)

declare big_integer_increment_loop.simps [simp del]

definition big_integer_increment :: "big_integer \<Rightarrow> big_integer option" where
  "big_integer_increment v = big_integer_increment_loop (sign v) v 0"

subsection \<open>Comparison with a small integer\<close>

function big_integer_greater_equal_int16_loop :: "big_integer \<Rightarrow> nat \<Rightarrow> bool option" where
  "big_integer_greater_equal_int16_loop a i =
     (if i < big_length a then
        do { byte \<leftarrow> get_byte_value_of_big_integer a i;
             if sign a \<and> byte > 0 then Some False
             else if \<not> sign a \<and> byte > 0 then Some True
             else big_integer_greater_equal_int16_loop a (i + 1) }
      else if \<not> sign a then Some False else Some True)"
  by pat_completeness auto
termination
  by (relation "measure (\<lambda>(a, i). big_length a - i)") auto

declare big_integer_greater_equal_int16_loop.simps [simp del]

definition big_integer_greater_equal_int16 :: "big_integer \<Rightarrow> int16_t \<Rightarrow> bool \<Rightarrow> bool option" where
  "big_integer_greater_equal_int16 a b simd =
     do { let a_negative = sign a;
          a_zero \<leftarrow> big_integer_is_zero a simd;
          let b_zero = (b = 0);
          if a_zero \<and> b_zero then Some True
          else if a_zero \<and> sint b < 0 then Some True
          else if a_zero \<and> sint b > 0 then Some False
          else if a_negative \<and> sint b \<ge> 0 then Some False
          else if \<not> a_negative \<and> sint b \<le> 0 then Some True
          else do {
            first_byte \<leftarrow> get_byte_value_of_big_integer a 0;
            if \<not> a_negative \<and> uint first_byte = sint b then Some True
            else if \<not> a_negative \<and> uint first_byte > sint b then Some True
            else if a_negative \<and> uint first_byte > sint b then Some False
            else big_integer_greater_equal_int16_loop a 1 } }"

text \<open>
  Claim C7 at a negative operand with a two-byte magnitude: the loop neither borrows from the
  next byte nor stops after the first byte it decrements.  For magnitude 256 (bytes 00 01) it
  leaves magnitude 0 instead of 255, for magnitude 257 (bytes 01 01) it leaves 0 instead of 256.
\<close>

theorem big_integer_increment_negative_multibyte:
  "big_integer_increment \<lparr>sign = True, mem = [0, 1]\<rparr> = Some \<lparr>sign = True, mem = [0, 0]\<rparr>
   \<and> big_integer_increment \<lparr>sign = True, mem = [1, 1]\<rparr> = Some \<lparr>sign = True, mem = [0, 0]\<rparr>"
  by (simp add: big_integer_increment_def big_integer_increment_loop.simps big_length_def
        get_byte_value_of_big_integer_def set_byte_value_of_big_integer_def)

text \<open>
  Claim C6 at two strictly negative operands: \<open>a = -1\<close> against \<open>b = -1\<close> and against
  \<open>b = -256\<close>.  The test \<open>first_byte > b\<close> compares the unsigned first byte with the negative
  \<open>b\<close>, so it always holds and the function answers false although \<open>a \<ge> b\<close>.
\<close>

theorem big_integer_greater_equal_int16_both_negative:
  "big_integer_greater_equal_int16 \<lparr>sign = True, mem = [1]\<rparr> (- 1) simd = Some False
   \<and> big_integer_greater_equal_int16 \<lparr>sign = True, mem = [1]\<rparr> (- 256) simd = Some False
   \<and> big_value \<lparr>sign = True, mem = [1]\<rparr> \<ge> sint (- 1 :: int16_t)
   \<and> big_value \<lparr>sign = True, mem = [1]\<rparr> \<ge> sint (- 256 :: int16_t)"
  by (simp add: big_integer_greater_equal_int16_def big_integer_is_zero_eq big_length_def
        get_byte_value_of_big_integer_def big_value_def big_magnitude_def)

subsection \<open>Magnitude addition: byte-wise and SIMD\<close>

lemma length_le_bytes [simp]: "length (le_bytes n v) = n"
  by (induction n arbitrary: v) auto

definition mm_set_epi32 :: "32 word \<Rightarrow> 32 word \<Rightarrow> 32 word \<Rightarrow> 32 word \<Rightarrow> m128i" where
  "mm_set_epi32 e3 e2 e1 e0 =
     \<lparr>lane0 = ucast e0 OR push_bit 32 (ucast e1), lane1 = ucast e2 OR push_bit 32 (ucast e3)\<rparr>"

definition bool_to_word :: "bool \<Rightarrow> 'a::len word" where
  "bool_to_word c = (if c then 1 else 0)"

text \<open>
  The byte-at-a-time loop of \<open>big_integer_addition_sisd\<close>; the last loop of
  \<open>big_integer_addition_simd\<close> is the same text, entered with the index and the carry the
  chunked loops left.  Bytes are read and written through \<open>mem\<close> directly, inside the bounds
  the loop conditions establish.
\<close>

function big_integer_addition_byte_loop ::
  "big_integer \<Rightarrow> big_integer \<Rightarrow> nat \<Rightarrow> bool \<Rightarrow> big_integer \<times> bool" where
  "big_integer_addition_byte_loop value_a value_b i carry =
     (if i < big_length value_a then
        let a = (ucast (mem value_a ! i) :: uint16_t);
            res = (if i < big_length value_b
                   then a + ucast (mem value_b ! i) + bool_to_word carry
                   else a + bool_to_word carry);
            carry' = (drop_bit 8 res AND 1 = 1)
        in big_integer_addition_byte_loop
             (value_a\<lparr>mem := (mem value_a)[i := ucast res]\<rparr>) value_b (i + 1) carry'
      else (value_a, carry))"
  by pat_completeness auto
termination
  by (relation "measure (\<lambda>(a, b, i, c). big_length a - i)") (auto simp: big_length_def)

declare big_integer_addition_byte_loop.simps [simp del]

definition big_integer_addition_sisd :: "big_integer \<Rightarrow> big_integer \<Rightarrow> big_integer" where
  "big_integer_addition_sisd value_a value_b =
     fst (big_integer_addition_byte_loop value_a value_b 0 False)"

function big_integer_addition_simd_loop7 ::
  "big_integer \<Rightarrow> big_integer \<Rightarrow> nat \<Rightarrow> bool \<Rightarrow> (big_integer \<times> bool) option" where
  "big_integer_addition_simd_loop7 value_a value_b i carry =
     (if i + 6 < big_length value_a \<and> i + 6 < big_length value_b then
        do { a_qword \<leftarrow> get_7_bytes__of_big_integer value_a i;
             b_qword \<leftarrow> get_7_bytes__of_big_integer value_b i;
             let sum = a_qword + b_qword;
             let sum = sum + bool_to_word carry;
             let carry' = (drop_bit 56 sum AND 1 = 1);
             value_a' \<leftarrow> set_7_bytes__of_big_integer value_a i sum;
             big_integer_addition_simd_loop7 value_a' value_b (i + 7) carry' }
      else Some (big_integer_addition_byte_loop value_a value_b i carry))"
  by pat_completeness auto
termination
  by (relation "measure (\<lambda>(a, b, i, c). big_length a - i)")
     (auto simp: big_length_def set_7_bytes__of_big_integer_def split: if_splits)

declare big_integer_addition_simd_loop7.simps [simp del]

text \<open>One 15-byte step of the SIMD addition: the new register and the carry out of bit 120.\<close>

definition big_integer_addition_simd_step15 :: "m128i \<Rightarrow> m128i \<Rightarrow> bool \<Rightarrow> m128i \<times> bool" where
  "big_integer_addition_simd_step15 a_bytes b_bytes carry =
     (let lower64_mask = mm_set_epi64x 0 0xFFFFFFFFFFFFFFFF;
          a_lower = mm_and_si128 a_bytes lower64_mask;
          b_lower = mm_and_si128 b_bytes lower64_mask;
          a_lower_max = (mm_extract_epi8_0 (mm_cmpeq_epi64 a_lower lower64_mask) \<noteq> 0);
          b_lower_max = (mm_extract_epi8_0 (mm_cmpeq_epi64 b_lower lower64_mask) \<noteq> 0);
          carry_128 = mm_set_epi32 0 0 0 (bool_to_word carry);
          result = mm_add_epi64 a_bytes b_bytes;
          result = mm_add_epi64 result carry_128;
          sub_mask = mm_set_epi64x 0 9223372036854775808;
          a_lower_signed = mm_sub_epi64 a_lower sub_mask;
          b_lower_signed = mm_sub_epi64 b_lower sub_mask;
          first_result_lower = mm_and_si128 result lower64_mask;
          lower_result_signed = mm_sub_epi64 first_result_lower sub_mask;
          cmp_a = mm_cmpgt_epi64 a_lower_signed lower_result_signed;
          cmp_b = mm_cmpgt_epi64 b_lower_signed lower_result_signed;
          cmp_ab = mm_or_si128 cmp_a cmp_b;
          std_carry = (\<not> mm_testz_si128 cmp_ab cmp_ab);
          max_carry = (a_lower_max \<and> b_lower_max \<and> carry);
          carry_happens = (std_carry \<or> max_carry);
          result = (if carry_happens then mm_add_epi64 result (mm_set_epi64x 1 0) else result);
          highest_bytes = mm_extract_epi16_7 result
      in (result, drop_bit 8 highest_bytes AND 1 = 1))"

function big_integer_addition_simd_loop15 ::
  "big_integer \<Rightarrow> big_integer \<Rightarrow> nat \<Rightarrow> bool \<Rightarrow> (big_integer \<times> bool) option" where
  "big_integer_addition_simd_loop15 value_a value_b i carry =
     (if i + 14 < big_length value_a \<and> i + 14 < big_length value_b then
        do { a_bytes \<leftarrow> get_15_bytes__of_big_integer value_a i;
             b_bytes \<leftarrow> get_15_bytes__of_big_integer value_b i;
             let (result, carry') = big_integer_addition_simd_step15 a_bytes b_bytes carry;
             value_a' \<leftarrow> set_15_bytes__of_big_integer value_a i result;
             big_integer_addition_simd_loop15 value_a' value_b (i + 15) carry' }
      else big_integer_addition_simd_loop7 value_a value_b i carry)"
  by pat_completeness auto
termination
  by (relation "measure (\<lambda>(a, b, i, c). big_length a - i)")
     (auto simp: big_length_def set_15_bytes__of_big_integer_def split: if_splits)

declare big_integer_addition_simd_loop15.simps [simp del]

definition big_integer_addition_simd :: "big_integer \<Rightarrow> big_integer \<Rightarrow> big_integer option" where
  "big_integer_addition_simd value_a value_b =
     map_option fst (big_integer_addition_simd_loop15 value_a value_b 0 False)"

subsection \<open>Magnitude subtraction: byte-wise and SIMD\<close>

function big_integer_subtraction_byte_loop ::
  "big_integer \<Rightarrow> big_integer \<Rightarrow> nat \<Rightarrow> bool \<Rightarrow> big_integer \<times> bool" where
  "big_integer_subtraction_byte_loop value_a value_b i borrow =
     (if i < big_length value_a then
        let a = (ucast (mem value_a ! i) :: uint16_t);
            res = (if i < big_length value_b
                   then a - ucast (mem value_b ! i) - bool_to_word borrow
                   else a - bool_to_word borrow);
            borrow' = (drop_bit 15 res AND 1 = 1)
        in big_integer_subtraction_byte_loop
             (value_a\<lparr>mem := (mem value_a)[i := ucast res]\<rparr>) value_b (i + 1) borrow'
      else (value_a, borrow))"
  by pat_completeness auto
termination
  by (relation "measure (\<lambda>(a, b, i, c). big_length a - i)") (auto simp: big_length_def)

declare big_integer_subtraction_byte_loop.simps [simp del]

definition big_integer_subtraction_sisd :: "big_integer \<Rightarrow> big_integer \<Rightarrow> big_integer" where
  "big_integer_subtraction_sisd value_a value_b =
     fst (big_integer_subtraction_byte_loop value_a value_b 0 False)"

function big_integer_subtraction_simd_loop7 ::
  "big_integer \<Rightarrow> big_integer \<Rightarrow> nat \<Rightarrow> bool \<Rightarrow> (big_integer \<times> bool) option" where
  "big_integer_subtraction_simd_loop7 value_a value_b i borrow =
     (if i + 6 < big_length value_a \<and> i + 6 < big_length value_b then
        do { a_qword \<leftarrow> get_7_bytes__of_big_integer value_a i;
             b_qword \<leftarrow> get_7_bytes__of_big_integer value_b i;
             let res = a_qword - b_qword;
             let res = res - bool_to_word borrow;
             let borrow' = (drop_bit 56 res AND 1 = 1);
             value_a' \<leftarrow> set_7_bytes__of_big_integer value_a i res;
             big_integer_subtraction_simd_loop7 value_a' value_b (i + 7) borrow' }
      else Some (big_integer_subtraction_byte_loop value_a value_b i borrow))"
  by pat_completeness auto
termination
  by (relation "measure (\<lambda>(a, b, i, c). big_length a - i)")
     (auto simp: big_length_def set_7_bytes__of_big_integer_def split: if_splits)

declare big_integer_subtraction_simd_loop7.simps [simp del]

definition big_integer_subtraction_simd_step15 :: "m128i \<Rightarrow> m128i \<Rightarrow> bool \<Rightarrow> m128i \<times> bool" where
  "big_integer_subtraction_simd_step15 a_bytes b_bytes borrow =
     (let lower64_mask = mm_set_epi64x 0 0xFFFFFFFFFFFFFFFF;
          a_lower = mm_and_si128 a_bytes lower64_mask;
          b_lower = mm_and_si128 b_bytes lower64_mask;
          b_lower_max = (mm_extract_epi8_0 (mm_cmpeq_epi64 b_lower lower64_mask) \<noteq> 0);
          borrow_128 = mm_set_epi32 0 0 0 (bool_to_word borrow);
          result = mm_sub_epi64 a_bytes b_bytes;
          result = mm_sub_epi64 result borrow_128;
          sub_mask = mm_set_epi64x 0 9223372036854775808;
          a_lower_signed = mm_sub_epi64 a_lower sub_mask;
          first_result_lower = mm_and_si128 result lower64_mask;
          lower_result_signed = mm_sub_epi64 first_result_lower sub_mask;
          cmp_a = mm_cmpgt_epi64 lower_result_signed a_lower_signed;
          std_borrow = (\<not> mm_testz_si128 cmp_a cmp_a);
          max_borrow = (b_lower_max \<and> borrow);
          borrow_happens = (std_borrow \<or> max_borrow);
          result = (if borrow_happens then mm_sub_epi64 result (mm_set_epi64x 1 0) else result);
          highest_bytes = mm_extract_epi16_7 result
      in (result, drop_bit 15 highest_bytes AND 1 = 1))"

function big_integer_subtraction_simd_loop15 ::
  "big_integer \<Rightarrow> big_integer \<Rightarrow> nat \<Rightarrow> bool \<Rightarrow> (big_integer \<times> bool) option" where
  "big_integer_subtraction_simd_loop15 value_a value_b i borrow =
     (if i + 14 < big_length value_a \<and> i + 14 < big_length value_b then
        do { a_bytes \<leftarrow> get_15_bytes__of_big_integer value_a i;
             b_bytes \<leftarrow> get_15_bytes__of_big_integer value_b i;
             let (result, borrow') = big_integer_subtraction_simd_step15 a_bytes b_bytes borrow;
             value_a' \<leftarrow> set_15_bytes__of_big_integer value_a i result;
             big_integer_subtraction_simd_loop15 value_a' value_b (i + 15) borrow' }
      else big_integer_subtraction_simd_loop7 value_a value_b i borrow)"
  by pat_completeness auto
termination
  by (relation "measure (\<lambda>(a, b, i, c). big_length a - i)")
     (auto simp: big_length_def set_15_bytes__of_big_integer_def split: if_splits)

declare big_integer_subtraction_simd_loop15.simps [simp del]

definition big_integer_subtraction_simd :: "big_integer \<Rightarrow> big_integer \<Rightarrow> big_integer option" where
  "big_integer_subtraction_simd value_a value_b =
     map_option fst (big_integer_subtraction_simd_loop15 value_a value_b 0 False)"

subsection \<open>Magnitude comparison\<close>

text \<open>
  The loop of \<open>positive_big_integer_is_greater_than\<close> runs its index from
  \<open>max_length - 1\<close> down to 0; the argument of the model is the number of bytes still to
  scan, so the equation for \<open>Suc i\<close> is the loop body at index \<open>i\<close>.
\<close>

fun positive_big_integer_is_greater_than_loop ::
  "big_integer \<Rightarrow> big_integer \<Rightarrow> nat \<Rightarrow> bool option" where
  "positive_big_integer_is_greater_than_loop a b 0 = Some False"
| "positive_big_integer_is_greater_than_loop a b (Suc i) =
     do { a_byte \<leftarrow> (if i < big_length a then get_byte_value_of_big_integer a i else Some 0);
          b_byte \<leftarrow> (if i < big_length b then get_byte_value_of_big_integer b i else Some 0);
          if i \<ge> big_length b \<and> i < big_length a then
            (if a_byte \<noteq> 0 then Some True
             else positive_big_integer_is_greater_than_loop a b i)
          else if i \<ge> big_length a \<and> i < big_length b then
            (if b_byte \<noteq> 0 then Some False
             else positive_big_integer_is_greater_than_loop a b i)
          else if a_byte = b_byte then positive_big_integer_is_greater_than_loop a b i
          else Some (a_byte > b_byte) }"

definition positive_big_integer_is_greater_than ::
  "big_integer \<Rightarrow> big_integer \<Rightarrow> bool \<Rightarrow> bool option" where
  "positive_big_integer_is_greater_than a b simd =
     (if sign a \<or> sign b then None
      else do {
        a_zero \<leftarrow> big_integer_is_zero a simd;
        b_zero \<leftarrow> big_integer_is_zero b simd;
        if a_zero \<and> b_zero then Some False
        else if a_zero \<and> \<not> sign b then Some False
        else positive_big_integer_is_greater_than_loop a b (max (big_length a) (big_length b)) })"

lemma le_val_append: "le_val (xs @ ys) = le_val xs + 256 ^ length xs * le_val ys"
  by (induction xs) (auto simp: algebra_simps)

lemma le_val_replicate_0 [simp]: "le_val (replicate n 0) = 0"
  by (induction n) auto

lemma le_val_pad_mag [simp]: "le_val (pad_mag n xs) = le_val xs"
  by (simp add: pad_mag_def le_val_append)

lemma le_val_take_Suc:
  "i < length xs \<Longrightarrow> le_val (take (Suc i) xs) = le_val (take i xs) + 256 ^ i * unat (xs ! i)"
  by (simp add: take_Suc_conv_app_nth le_val_append)

lemma cmp_step:
  fixes l1 l2 m x y :: nat
  assumes "l1 < m" "l2 < m"
  shows "(l2 + m * y < l1 + m * x) = (if x = y then l2 < l1 else y < x)"
proof (cases "x = y")
  case True
  then show ?thesis by simp
next
  case False
  show ?thesis
  proof (cases "y < x")
    case True
    then have "m * (y + 1) \<le> m * x" by (intro mult_le_mono2) simp
    then have "m * y + m \<le> m * x" by (simp add: algebra_simps)
    then show ?thesis using assms True False by simp
  next
    case nlt: False
    then have "x < y" using False by simp
    then have "m * (x + 1) \<le> m * y" by (intro mult_le_mono2) simp
    then have "m * x + m \<le> m * y" by (simp add: algebra_simps)
    then show ?thesis using assms nlt False by simp
  qed
qed

lemma le_val_take_bound: "i \<le> length xs \<Longrightarrow> le_val (take i xs) < 256 ^ i"
  using le_val_bound [of "take i xs"] by simp

lemma positive_big_integer_is_greater_than_loop_eq:
  assumes "n = max (big_length a) (big_length b)"
  shows "k \<le> n \<Longrightarrow> positive_big_integer_is_greater_than_loop a b k =
     Some (le_val (take k (pad_mag n (mem b))) < le_val (take k (pad_mag n (mem a))))"
proof (induction k)
  case 0
  show ?case by simp
next
  case (Suc i)
  have la: "length (mem a) \<le> n" and lb: "length (mem b) \<le> n"
    using assms by (simp_all add: big_length_def)
  have i: "i < n" using Suc.prems by simp
  have IH: "positive_big_integer_is_greater_than_loop a b i =
     Some (le_val (take i (pad_mag n (mem b))) < le_val (take i (pad_mag n (mem a))))"
    using Suc by simp
  have na: "pad_mag n (mem a) ! i = (if i < big_length a then mem a ! i else 0)"
    using i la by (simp add: pad_mag_nth big_length_def)
  have nb: "pad_mag n (mem b) ! i = (if i < big_length b then mem b ! i else 0)"
    using i lb by (simp add: pad_mag_nth big_length_def)
  have ta: "le_val (take (Suc i) (pad_mag n (mem a)))
      = le_val (take i (pad_mag n (mem a))) + 256 ^ i * unat (pad_mag n (mem a) ! i)"
    using i la by (simp add: le_val_take_Suc length_pad_mag)
  have tb: "le_val (take (Suc i) (pad_mag n (mem b)))
      = le_val (take i (pad_mag n (mem b))) + 256 ^ i * unat (pad_mag n (mem b) ! i)"
    using i lb by (simp add: le_val_take_Suc length_pad_mag)
  have ba: "le_val (take i (pad_mag n (mem a))) < 256 ^ i"
    using i la by (intro le_val_take_bound) (simp add: length_pad_mag)
  have bb: "le_val (take i (pad_mag n (mem b))) < 256 ^ i"
    using i lb by (intro le_val_take_bound) (simp add: length_pad_mag)
  have c: "i < big_length a \<or> i < big_length b" using i assms by auto
  note step = cmp_step [OF ba bb, of "unat (pad_mag n (mem b) ! i)" "unat (pad_mag n (mem a) ! i)"]
  have goal: "le_val (take (Suc i) (pad_mag n (mem b))) < le_val (take (Suc i) (pad_mag n (mem a)))
      \<longleftrightarrow> (if pad_mag n (mem a) ! i = pad_mag n (mem b) ! i
           then le_val (take i (pad_mag n (mem b))) < le_val (take i (pad_mag n (mem a)))
           else pad_mag n (mem b) ! i < pad_mag n (mem a) ! i)"
    unfolding ta tb step by (simp add: word_less_nat_alt word_unat_eq_iff)
  consider (both) "i < big_length a" "i < big_length b"
    | (only_a) "i < big_length a" "\<not> i < big_length b"
    | (only_b) "\<not> i < big_length a" "i < big_length b"
    using c by blast
  then show ?case
  proof cases
    case both
    then show ?thesis unfolding goal
      by (simp add: IH na nb get_byte_value_of_big_integer_def)
  next
    case only_a
    then show ?thesis unfolding goal
      by (simp add: IH na nb get_byte_value_of_big_integer_def word_greater_zero_iff)
  next
    case only_b
    then show ?thesis unfolding goal
      by (simp add: IH na nb get_byte_value_of_big_integer_def)
  qed
qed

lemma positive_big_integer_is_greater_than_eq:
  assumes "\<not> sign a" "\<not> sign b"
  shows "positive_big_integer_is_greater_than a b simd
           = Some (le_val (mem b) < le_val (mem a))"
proof -
  define n where "n = max (big_length a) (big_length b)"
  have la: "length (mem a) \<le> n" and lb: "length (mem b) \<le> n"
    by (simp_all add: n_def big_length_def)
  have "positive_big_integer_is_greater_than_loop a b n =
     Some (le_val (take n (pad_mag n (mem b))) < le_val (take n (pad_mag n (mem a))))"
    by (rule positive_big_integer_is_greater_than_loop_eq [OF n_def]) simp
  then have loop: "positive_big_integer_is_greater_than_loop a b n =
     Some (le_val (mem b) < le_val (mem a))"
    using la lb by (simp add: length_pad_mag)
  have za: "all_zero (mem a) \<Longrightarrow> le_val (mem a) = 0" by (simp add: le_val_eq_0_iff)
  show ?thesis using assms loop za
    by (auto simp add: positive_big_integer_is_greater_than_def big_integer_is_zero_eq
          n_def [symmetric])
qed

subsection \<open>Signed addition and subtraction\<close>

text \<open>Subtraction of two \<open>size_t\<close> values (64 bit, wraps around).\<close>

definition size_t_sub :: "nat \<Rightarrow> nat \<Rightarrow> nat" where
  "size_t_sub x y = (x + 2 ^ 64 - y mod 2 ^ 64) mod 2 ^ 64"

text \<open>
  \<open>big_integer_addition\<close> and \<open>big_integer_subtraction\<close> work in place on two distinct
  objects; the model takes both and returns both, the first component being the new
  \<open>value_a\<close>, the second the new \<open>value_b\<close>.
\<close>

function big_integer_addition ::
    "big_integer \<Rightarrow> big_integer \<Rightarrow> bool \<Rightarrow> (big_integer \<times> big_integer) option"
  and big_integer_subtraction ::
    "big_integer \<Rightarrow> big_integer \<Rightarrow> bool \<Rightarrow> (big_integer \<times> big_integer) option"
where
  "big_integer_addition value_a value_b simd =
     (let a_sign = sign value_a; b_sign = sign value_b in
      if a_sign \<and> \<not> b_sign then
        do { (a1, b1) \<leftarrow> big_integer_subtraction (value_a\<lparr>sign := False\<rparr>) value_b simd;
             Some (a1\<lparr>sign := \<not> sign a1\<rparr>, b1) }
      else if \<not> a_sign \<and> b_sign then
        do { (a1, b1) \<leftarrow> big_integer_subtraction value_a (value_b\<lparr>sign := False\<rparr>) simd;
             Some (a1, b1\<lparr>sign := True\<rparr>) }
      else if simd then
        do { a1 \<leftarrow> big_integer_addition_simd value_a value_b; Some (a1, value_b) }
      else Some (big_integer_addition_sisd value_a value_b, value_b))"
| "big_integer_subtraction value_a value_b simd =
     (let a_sign = sign value_a; b_sign = sign value_b in
      if \<not> a_sign \<and> b_sign then
        do { (a1, b1) \<leftarrow> big_integer_addition value_a (value_b\<lparr>sign := False\<rparr>) simd;
             Some (a1, b1\<lparr>sign := True\<rparr>) }
      else if a_sign \<and> \<not> b_sign then
        do { (a1, b1) \<leftarrow> big_integer_addition (value_a\<lparr>sign := False\<rparr>) value_b simd;
             Some (negate_big_integer a1, b1) }
      else if a_sign \<and> b_sign then
        do { let a0 = value_a\<lparr>sign := False\<rparr>;
             b_copy \<leftarrow> clone_big_integer_add_size value_b
                         (max 0 (size_t_sub (big_length a0) (big_length value_b)));
             let b_copy = b_copy\<lparr>sign := False\<rparr>;
             (b_copy', a1) \<leftarrow> big_integer_subtraction b_copy a0 simd;
             a2 \<leftarrow> copy_big_integer_value_into_another b_copy' a1;
             Some (a2, value_b) }
      else
        do { greater \<leftarrow> positive_big_integer_is_greater_than value_b value_a simd;
             if greater then
               do { let b_copy = clone_big_integer value_b;
                    (b1, a1) \<leftarrow> big_integer_subtraction value_b value_a simd;
                    let b2 = negate_big_integer b1;
                    a2 \<leftarrow> copy_big_integer_value_into_another b2 a1;
                    b3 \<leftarrow> copy_big_integer_value_into_another b_copy b2;
                    Some (a2, b3) }
             else if simd then
               do { a1 \<leftarrow> big_integer_subtraction_simd value_a value_b; Some (a1, value_b) }
             else Some (big_integer_subtraction_sisd value_a value_b, value_b) })"
  by pat_completeness auto

text \<open>
  The recursion ends: a call with mixed signs goes to a call with two non-negative
  operands; on two non-negative operands the only recursive call swaps them when
  \<open>value_b\<close> is the greater, and after the swap it is not.
\<close>

definition add_sub_measure ::
  "(big_integer \<times> big_integer \<times> bool) + (big_integer \<times> big_integer \<times> bool) \<Rightarrow> nat" where
  "add_sub_measure x =
     (case x of
        Inl (a, b, simd) \<Rightarrow> (if sign a = sign b then 0 else 3)
      | Inr (a, b, simd) \<Rightarrow>
          (if sign a \<and> sign b then 2
           else if sign a \<or> sign b then 1
           else if le_val (mem a) < le_val (mem b) then 1 else 0))"

termination big_integer_addition
proof (relation "measure add_sub_measure", goal_cases)
  case 1
  show ?case by simp
next
  case (2 value_a value_b simd)
  then show ?case by (simp add: add_sub_measure_def)
next
  case (3 value_a value_b simd)
  then show ?case by (simp add: add_sub_measure_def)
next
  case (4 value_a value_b simd)
  then show ?case by (auto simp add: add_sub_measure_def)
next
  case (5 value_a value_b simd)
  then show ?case by (auto simp add: add_sub_measure_def)
next
  case (6 value_a value_b simd)
  then show ?case by (auto simp add: add_sub_measure_def)
next
  case (7 value_a value_b simd x2)
  then show ?case 
    by (auto simp add: add_sub_measure_def positive_big_integer_is_greater_than_eq)
qed

declare big_integer_addition.simps [simp del] big_integer_subtraction.simps [simp del]

definition b2n :: "bool \<Rightarrow> nat" where "b2n c = (if c then 1 else 0)"

lemma unat_bool_to_word [simp]: "unat (bool_to_word c :: 'a::len word) = b2n c"
  by (simp add: bool_to_word_def b2n_def)

lemma b2n_le1: "b2n c \<le> 1" by (simp add: b2n_def)

lemma unat_ucast_8_16 [simp]: "unat (ucast (x :: uint8_t) :: uint16_t) = unat x"
proof -
  have "unat x < 2 ^ 16" using unat_u8_lt [of x] by simp
  then show ?thesis by (simp add: unsigned_ucast_eq take_bit_nat_eq_self)
qed

lemma unat_ucast_16_8: "unat (ucast (x :: uint16_t) :: uint8_t) = unat x mod 256"
  by (simp add: unsigned_ucast_eq take_bit_eq_mod)

lemma unat_of_nat_8: "unat (of_nat n :: uint8_t) = n mod 256"
  by (simp add: unat_of_nat)

lemma bit_word_nat: "bit (w :: 'a::len word) n \<longleftrightarrow> odd (unat w div 2 ^ n)"
  using bit_iff_odd bit_unsigned_iff possible_bit_nat by blast

lemma add_step_unat:
  fixes x y :: uint8_t
  shows "unat (ucast x + ucast y + bool_to_word c :: uint16_t) = unat x + unat y + b2n c"
proof -
  have "unat x < 256" "unat y < 256" by (rule unat_u8_lt)+
  moreover have "b2n c \<le> 1" by (rule b2n_le1)
  ultimately have "unat x + unat y + b2n c < 2 ^ LENGTH(16)" by simp
  then show ?thesis by (simp add: unat_word_ariths)
qed

lemma add_step_unat0:
  fixes x :: uint8_t
  shows "unat (ucast x + bool_to_word c :: uint16_t) = unat x + b2n c"
proof -
  have "unat x < 256" by (rule unat_u8_lt)
  moreover have "b2n c \<le> 1" by (rule b2n_le1)
  ultimately have "unat x + b2n c < 2 ^ LENGTH(16)" by simp
  then show ?thesis by (simp add: unat_word_ariths)
qed

lemma carry_bit_iff:
  fixes res :: uint16_t
  assumes "unat res < 512"
  shows "(drop_bit 8 res AND 1 = 1) \<longleftrightarrow> 256 \<le> unat res"
proof -
  have "(drop_bit 8 res AND 1 = 1) \<longleftrightarrow> odd (unat res div 2 ^ 8)"
    by (simp flip: bit_word_iff_drop_bit_and add: bit_word_nat)
  also have "\<dots> \<longleftrightarrow> 256 \<le> unat res"
  proof (cases "256 \<le> unat res")
    case True
    then have "unat res div 256 = 1" using assms by simp
    then show ?thesis using True by simp
  next
    case False
    then have "unat res div 256 = 0" by simp
    then show ?thesis using False by simp
  qed
  finally show ?thesis .
qed

lemma sint_flip: "sint (x - 0x8000000000000000 :: 64 word) = uint x - 2^63"
proof -
  have "sint (x - 0x8000000000000000) = signed_take_bit 63 (uint (x - 0x8000000000000000))"
    by (simp add: sint_uint)
  also have "uint (x - 0x8000000000000000) = take_bit 64 (uint x - 2^63)"
    by (simp add: uint_word_ariths take_bit_eq_mod)
  also have "signed_take_bit 63 (take_bit 64 (uint x - 2^63)) = signed_take_bit 63 (uint x - 2^63)"
    by (simp add: signed_take_bit_take_bit)
  also have "\<dots> = uint x - 2^63"
  proof (rule signed_take_bit_int_eq_self)
    show "- (2 ^ 63) \<le> uint x - 2 ^ 63" by simp
    have "uint x < 2 ^ 64" using uint_bounded [of x] by simp
    then show "uint x - 2 ^ 63 < 2 ^ 63" by simp
  qed
  finally show ?thesis .
qed

lemma sint_flip_less: 
  "sint (y - 0x8000000000000000 :: 64 word) < sint (x - 0x8000000000000000 :: 64 word) \<longleftrightarrow> unat y < unat x"
  by (simp add: sint_flip word_less_nat_alt [symmetric] word_less_def)

subsection \<open>Closed forms of the magnitude loops\<close>

lemma of_nat_u8_eq_iff: "(of_nat m :: uint8_t) = of_nat n \<longleftrightarrow> m mod 256 = n mod 256"
  by (metis unat_of_nat_8 word_unat_eq_iff)

lemma ucast_16_8_eq_of_nat:
  "unat (res :: uint16_t) mod 256 = s mod 256 \<Longrightarrow> (ucast res :: uint8_t) = of_nat s"
  by (metis unat_of_nat_8 unat_ucast_16_8 word_unat_eq_iff)

lemma mod256_add: "(s + 256 * t) mod 256 = s mod (256::nat)"
  by simp

lemma le_bytes_mod: "le_bytes k (v mod 256 ^ k) = le_bytes k v"
proof (induction k arbitrary: v)
  case 0
  show ?case by simp
next
  case (Suc k)
  have a: "(v mod (256 * 256 ^ k)) mod 256 = v mod 256"
    by (simp add: mod_mod_cancel)
  have b: "(v mod (256 * 256 ^ k)) div 256 = (v div 256) mod 256 ^ k"
    by (simp add: mod_mult2_eq)
  show ?case using Suc [of "v div 256"] by (simp add: of_nat_u8_eq_iff a b)
qed

lemma le_bytes_append: "le_bytes (j + k) v = le_bytes j v @ le_bytes k (v div 256 ^ j)"
  by (induction j arbitrary: v) (auto simp: div_mult2_eq)

lemma le_bytes_le_val: "le_bytes (length xs) (le_val xs) = xs"
proof (induction xs)
  case Nil
  show ?case by simp
next
  case (Cons x xs)
  have "(of_nat (unat x + 256 * le_val xs) :: uint8_t) = of_nat (unat x)"
    unfolding of_nat_u8_eq_iff by simp
  then have "(of_nat (unat x + 256 * le_val xs) :: uint8_t) = x"
    by simp
  moreover have "(unat x + 256 * le_val xs) div 256 = le_val xs"
    using unat_u8_lt [of x] by simp
  ultimately show ?case using Cons by simp
qed

lemma le_val_le_bytes: "le_val (le_bytes k v) = v mod 256 ^ k"
proof (induction k arbitrary: v)
  case 0
  show ?case by simp
next
  case (Suc k)
  have "v mod 256 + 256 * ((v div 256) mod 256 ^ k) = v mod (256 * 256 ^ k)"
    by (simp add: mod_mult2_eq)
  then show ?case using Suc [of "v div 256"] by (simp add: unat_of_nat_8)
qed

text \<open>The sum the byte loop still has to produce when it stands at index \<open>i\<close>.\<close>

definition add_sum :: "big_integer \<Rightarrow> big_integer \<Rightarrow> nat \<Rightarrow> bool \<Rightarrow> nat" where
  "add_sum a b i c =
     le_val (drop i (mem a)) + le_val (take (big_length a - i) (drop i (mem b))) + b2n c"

lemma le_val_drop_step:
  "i < length xs \<Longrightarrow> le_val (drop i xs) = unat (xs ! i) + 256 * le_val (drop (Suc i) xs)"
  by (simp flip: Cons_nth_drop_Suc)

lemma le_val_take_drop_step:
  "le_val (take (Suc k) (drop i ys))
     = (if i < length ys then unat (ys ! i) else 0) + 256 * le_val (take k (drop (Suc i) ys))"
  by (cases "i < length ys") (simp_all flip: Cons_nth_drop_Suc)

lemma big_integer_addition_byte_loop_eq:
  "i \<le> big_length a \<Longrightarrow>
   big_integer_addition_byte_loop a b i c =
     (a\<lparr>mem := take i (mem a) @ le_bytes (big_length a - i) (add_sum a b i c)\<rparr>,
      256 ^ (big_length a - i) \<le> add_sum a b i c)"
proof (induction a b i c rule: big_integer_addition_byte_loop.induct)
  case (1 a b i c)
  show ?case
  proof (cases "i < big_length a")
    case False
    then have "i = big_length a" using "1.prems" by simp
    then show ?thesis
      by (subst big_integer_addition_byte_loop.simps)
         (simp add: add_sum_def big_length_def b2n_def)
  next
    case True
    define k where "k = big_length a - Suc i"
    have k: "big_length a - i = Suc k" using True by (simp add: k_def)
    define x where "x = unat (mem a ! i)"
    define y where "y = (if i < big_length b then unat (mem b ! i) else 0)"
    define res :: uint16_t where
      "res = (if i < big_length b then ucast (mem a ! i) + ucast (mem b ! i) + bool_to_word c
              else ucast (mem a ! i) + bool_to_word c)"
    define c' where "c' = (drop_bit 8 res AND 1 = 1)"
    define a' where "a' = a\<lparr>mem := (mem a)[i := ucast res]\<rparr>"
    define A' where "A' = le_val (drop (Suc i) (mem a))"
    define B' where "B' = le_val (take k (drop (Suc i) (mem b)))"
    have ures: "unat res = x + y + b2n c"
      by (simp add: res_def x_def y_def add_step_unat add_step_unat0)
    have xb: "x < 256" and yb: "y < 256"
      by (simp_all add: x_def y_def unat_u8_lt)
    have rb: "unat res < 512" using ures xb yb b2n_le1 [of c] by simp
    have c'_iff: "c' \<longleftrightarrow> 256 \<le> x + y + b2n c"
      unfolding c'_def using carry_bit_iff [OF rb] ures by simp
    have S: "add_sum a b i c = (x + y + b2n c) + 256 * (A' + B')"
      unfolding add_sum_def k using True
      by (simp add: le_val_drop_step le_val_take_drop_step big_length_def
            x_def y_def A'_def B'_def)
    have Sdiv: "add_sum a b i c div 256 = A' + B' + b2n c'"
    proof -
      have "(x + y + b2n c) div 256 = b2n c'"
        using c'_iff xb yb b2n_le1 [of c] by (cases c') (simp_all add: b2n_def)
      then show ?thesis unfolding S by simp
    qed
    have S': "add_sum a' b (Suc i) c' = A' + B' + b2n c'"
      using True by (simp add: add_sum_def a'_def A'_def B'_def k_def big_length_def)
    have byte: "(ucast res :: uint8_t) = of_nat (add_sum a b i c)"
      by (rule ucast_16_8_eq_of_nat) (simp only: ures S mod256_add)
    have len': "big_length a' = big_length a" by (simp add: a'_def big_length_def)
    have IH: "big_integer_addition_byte_loop a' b (i + 1) c' =
       (a'\<lparr>mem := take (i + 1) (mem a') @ le_bytes (big_length a' - (i + 1)) (add_sum a' b (i + 1) c')\<rparr>,
        256 ^ (big_length a' - (i + 1)) \<le> add_sum a' b (i + 1) c')"
      unfolding a'_def c'_def res_def
      by (rule "1.IH" [OF True refl refl refl]) (use True in \<open>simp add: big_length_def\<close>)
    have tk: "take (Suc i) (mem a') = take i (mem a) @ [ucast res]"
      using True by (simp add: a'_def big_length_def take_Suc_conv_app_nth)
    have unfold: "big_integer_addition_byte_loop a b i c =
        big_integer_addition_byte_loop a' b (i + 1) c'"
      using True
      by (subst big_integer_addition_byte_loop.simps)
         (simp add: a'_def c'_def res_def Let_def)
    have fin: "(256 ^ k \<le> A' + B' + b2n c') \<longleftrightarrow> (256 * 256 ^ k \<le> add_sum a b i c)"
      unfolding Sdiv [symmetric] by (simp add: less_eq_div_iff_mult_less_eq mult.commute)
    have upd: "\<And>X. a'\<lparr>mem := X\<rparr> = a\<lparr>mem := X\<rparr>" by (simp add: a'_def)
    show ?thesis
      unfolding unfold IH
      by (simp add: len' k S' tk byte fin upd Sdiv k_def [symmetric])
  qed
qed

text \<open>
  One chunk of \<open>m\<close> bytes, added at once: the closed form of the remaining loop is the
  same before and after the chunk.
\<close>

lemma le_val_drop_chunk:
  "i + m \<le> length xs \<Longrightarrow>
   le_val (drop i xs) = le_val (take m (drop i xs)) + 256 ^ m * le_val (drop (i + m) xs)"
proof -
  assume a: "i + m \<le> length xs"
  have "drop i xs = take m (drop i xs) @ drop (i + m) xs" by (rule drop_add_take)
  then have "le_val (drop i xs) = le_val (take m (drop i xs) @ drop (i + m) xs)" by simp
  also have "\<dots> = le_val (take m (drop i xs)) + 256 ^ m * le_val (drop (i + m) xs)"
    using a by (simp add: le_val_append min_def)
  finally show ?thesis .
qed

lemma le_val_take_drop_chunk:
  "i + m \<le> length ys \<Longrightarrow>
   le_val (take (m + k) (drop i ys))
     = le_val (take m (drop i ys)) + 256 ^ m * le_val (take k (drop (i + m) ys))"
proof -
  assume a: "i + m \<le> length ys"
  have "take (m + k) (drop i ys) = take m (drop i ys) @ take k (drop m (drop i ys))"
    by (rule take_add)
  also have "drop m (drop i ys) = drop (i + m) ys" by (simp add: add.commute)
  finally have "le_val (take (m + k) (drop i ys))
      = le_val (take m (drop i ys) @ take k (drop (i + m) ys))" by simp
  also have "\<dots> = le_val (take m (drop i ys)) + 256 ^ m * le_val (take k (drop (i + m) ys))"
    using a by (simp add: le_val_append min_def)
  finally show ?thesis .
qed

lemma le_val_chunk_bound:
  assumes "i + m \<le> length xs"
  shows "le_val (take m (drop i xs)) < 256 ^ m"
proof -
  have "length (take m (drop i xs)) = m" using assms by simp
  then show ?thesis using le_val_bound [of "take m (drop i xs)"] by simp
qed

lemma add_chunk_step:
  assumes ia: "i + m \<le> big_length a" and ib: "i + m \<le> big_length b"
    and T: "T = le_val (take m (drop i (mem a))) + le_val (take m (drop i (mem b))) + b2n c"
    and a': "a' = a\<lparr>mem := take i (mem a) @ le_bytes m T @ drop (i + m) (mem a)\<rparr>"
    and c': "c' = (256 ^ m \<le> T)"
  shows "(a'\<lparr>mem := take (i + m) (mem a')
                  @ le_bytes (big_length a' - (i + m)) (add_sum a' b (i + m) c')\<rparr>,
          256 ^ (big_length a' - (i + m)) \<le> add_sum a' b (i + m) c')
       = (a\<lparr>mem := take i (mem a) @ le_bytes (big_length a - i) (add_sum a b i c)\<rparr>,
          256 ^ (big_length a - i) \<le> add_sum a b i c)"
proof -
  define k where "k = big_length a - (i + m)"
  have n: "big_length a - i = m + k" using ia by (simp add: k_def)
  define A' where "A' = le_val (drop (i + m) (mem a))"
  define B' where "B' = le_val (take k (drop (i + m) (mem b)))"
  have la: "i + m \<le> length (mem a)" and lb: "i + m \<le> length (mem b)"
    using ia ib by (simp_all add: big_length_def)
  have len': "big_length a' = big_length a"
    using la by (simp add: a' big_length_def)
  have dr': "drop (i + m) (mem a') = drop (i + m) (mem a)"
    using la by (simp add: a')
  have tk': "take (i + m) (mem a') = take i (mem a) @ le_bytes m T"
    using la by (simp add: a')
  have Tb: "T < 2 * 256 ^ m"
  proof -
    have "le_val (take m (drop i (mem a))) < 256 ^ m"
      by (rule le_val_chunk_bound [OF la])
    moreover have "le_val (take m (drop i (mem b))) < 256 ^ m"
      by (rule le_val_chunk_bound [OF lb])
    moreover have "b2n c \<le> 1" by (rule b2n_le1)
    ultimately show ?thesis unfolding T by linarith
  qed
  have Tdiv: "T div 256 ^ m = b2n c'"
  proof (cases c')
    case True
    then have "256 ^ m \<le> T" by (simp add: c')
    then have "T div 256 ^ m = 1" using Tb
      by (intro div_nat_eqI) simp_all
    then show ?thesis using True by (simp add: b2n_def)
  next
    case False
    then have "T < 256 ^ m" by (simp add: c')
    then show ?thesis using False by (simp add: b2n_def)
  qed
  have S: "add_sum a b i c = T + 256 ^ m * (A' + B')"
    unfolding add_sum_def n T A'_def B'_def
    using le_val_drop_chunk [OF la] le_val_take_drop_chunk [OF lb, of k]
    by (simp add: algebra_simps)
  have S': "add_sum a' b (i + m) c' = A' + B' + b2n c'"
    by (simp add: add_sum_def len' dr' A'_def B'_def k_def)
  have Sdiv: "add_sum a b i c div 256 ^ m = add_sum a' b (i + m) c'"
    unfolding S S' using Tdiv by simp
  have Smod: "le_bytes m (add_sum a b i c) = le_bytes m T"
  proof -
    have "add_sum a b i c mod 256 ^ m = T mod 256 ^ m" unfolding S by simp
    then show ?thesis by (metis le_bytes_mod)
  qed
  have bytes: "le_bytes (m + k) (add_sum a b i c)
      = le_bytes m T @ le_bytes k (add_sum a' b (i + m) c')"
    by (simp add: le_bytes_append Smod Sdiv)
  have fin: "(256 ^ (m + k) \<le> add_sum a b i c) \<longleftrightarrow> (256 ^ k \<le> add_sum a' b (i + m) c')"
    unfolding Sdiv [symmetric]
    by (simp add: less_eq_div_iff_mult_less_eq power_add mult.commute)
  have upd: "\<And>X. a'\<lparr>mem := X\<rparr> = a\<lparr>mem := X\<rparr>" by (simp add: a')
  show ?thesis
    by (simp add: len' n tk' bytes fin upd k_def [symmetric])
qed

lemma unat_of_nat_64: "n < 2 ^ 64 \<Longrightarrow> unat (of_nat n :: uint64_t) = n"
  by (simp add: unat_of_nat)

lemma add7_unat:
  assumes "A < 2 ^ 56" "B < 2 ^ 56"
  shows "unat (of_nat A + of_nat B + bool_to_word c :: uint64_t) = A + B + b2n c"
proof -
  have "A + B + b2n c < 2 ^ 64" using assms b2n_le1 [of c] by simp
  moreover have "unat (of_nat A :: uint64_t) = A" "unat (of_nat B :: uint64_t) = B"
    using assms by (simp_all add: unat_of_nat)
  ultimately show ?thesis by (simp add: unat_word_ariths)
qed

lemma carry56_iff:
  fixes w :: uint64_t
  assumes "unat w < 2 ^ 57"
  shows "(drop_bit 56 w AND 1 = 1) \<longleftrightarrow> 2 ^ 56 \<le> unat w"
proof -
  have "(drop_bit 56 w AND 1 = 1) \<longleftrightarrow> odd (unat w div 2 ^ 56)"
    by (simp flip: bit_word_iff_drop_bit_and add: bit_word_nat)
  also have "\<dots> \<longleftrightarrow> 2 ^ 56 \<le> unat w"
  proof (cases "2 ^ 56 \<le> unat w")
    case True
    then have "unat w div 2 ^ 56 = 1" using assms by (intro div_nat_eqI) simp_all
    then show ?thesis using True by simp
  next
    case False
    then have "unat w div 2 ^ 56 = 0" by simp
    then show ?thesis using False by simp
  qed
  finally show ?thesis .
qed

lemma big_integer_addition_simd_loop7_eq:
  "i \<le> big_length a \<Longrightarrow>
   big_integer_addition_simd_loop7 a b i c =
     Some (a\<lparr>mem := take i (mem a) @ le_bytes (big_length a - i) (add_sum a b i c)\<rparr>,
           256 ^ (big_length a - i) \<le> add_sum a b i c)"
proof (induction a b i c rule: big_integer_addition_simd_loop7.induct)
  case (1 a b i c)
  show ?case
  proof (cases "i + 6 < big_length a \<and> i + 6 < big_length b")
    case False
    have "big_integer_addition_simd_loop7 a b i c
        = Some (big_integer_addition_byte_loop a b i c)"
      by (subst big_integer_addition_simd_loop7.simps) (simp only: False if_False)
    then show ?thesis using "1.prems"
      by (simp add: big_integer_addition_byte_loop_eq)
  next
    case True
    then have ia: "i + 7 \<le> big_length a" and ib: "i + 7 \<le> big_length b" by simp_all
    define A where "A = le_val (take 7 (drop i (mem a)))"
    define B where "B = le_val (take 7 (drop i (mem b)))"
    define T where "T = A + B + b2n c"
    define sum :: uint64_t where "sum = of_nat A + of_nat B + bool_to_word c"
    define c' where "c' = (drop_bit 56 sum AND 1 = 1)"
    define a' where "a' = a\<lparr>mem := take i (mem a) @ le_bytes 7 T @ drop (i + 7) (mem a)\<rparr>"
    have Ab: "A < 2 ^ 56" and Bb: "B < 2 ^ 56"
      using le_val_chunk_bound [of i 7 "mem a"] le_val_chunk_bound [of i 7 "mem b"] ia ib
      by (simp_all add: A_def B_def big_length_def)
    have us: "unat sum = T" unfolding sum_def T_def by (rule add7_unat [OF Ab Bb])
    have ga: "get_7_bytes__of_big_integer a i = Some (of_nat A)"
      using True by (simp add: get_7_bytes__of_big_integer_def A_def)
    have gb: "get_7_bytes__of_big_integer b i = Some (of_nat B)"
      using True by (simp add: get_7_bytes__of_big_integer_def B_def)
    have sa: "set_7_bytes__of_big_integer a i sum = Some a'"
      using True by (simp add: set_7_bytes__of_big_integer_def a'_def us)
    have c'_iff: "c' = (256 ^ 7 \<le> T)"
    proof -
      have "unat sum < 2 ^ 57" using us Ab Bb b2n_le1 [of c] by (simp add: T_def)
      then show ?thesis unfolding c'_def using carry56_iff [of sum] us by simp
    qed
    have len': "i + 7 \<le> big_length a'" using ia by (simp add: a'_def big_length_def)
    have IH: "big_integer_addition_simd_loop7 a' b (i + 7) c' =
       Some (a'\<lparr>mem := take (i + 7) (mem a')
                  @ le_bytes (big_length a' - (i + 7)) (add_sum a' b (i + 7) c')\<rparr>,
          256 ^ (big_length a' - (i + 7)) \<le> add_sum a' b (i + 7) c')"
      using "1.IH" [OF True ga gb refl refl refl sa [unfolded sum_def] len']
      by (simp add: c'_def sum_def)
    have unfold: "big_integer_addition_simd_loop7 a b i c =
        big_integer_addition_simd_loop7 a' b (i + 7) c'"
      using True
      by (subst big_integer_addition_simd_loop7.simps)
         (simp add: ga gb sa c'_def sum_def [symmetric] Let_def)
    show ?thesis
      unfolding unfold IH
      using add_chunk_step [OF ia ib _ a'_def c'_iff] by (simp add: T_def A_def B_def)
  qed
qed

lemma mask64_eq: "(0xFFFFFFFFFFFFFFFF :: uint64_t) = - 1"
  by simp

lemma and_mask64 [simp]: "x AND (0xFFFFFFFFFFFFFFFF :: uint64_t) = x"
  by (simp only: mask64_eq) simp

lemma ucast_bool_to_word_32_64 [simp]:
  "(ucast (bool_to_word c :: 32 word) :: uint64_t) = bool_to_word c"
  by (simp add: bool_to_word_def)

lemma mm_set_epi32_carry:
  "mm_set_epi32 0 0 0 (bool_to_word c) = \<lparr>lane0 = bool_to_word c, lane1 = 0\<rparr>"
  by (simp add: mm_set_epi32_def)

lemma cmp_lane_or_zero [simp]:
  "((if p then 0xFFFFFFFFFFFFFFFF else 0) OR (if q then 0xFFFFFFFFFFFFFFFF else (0 :: uint64_t)) = 0)
     \<longleftrightarrow> \<not> p \<and> \<not> q"
  by simp

lemma ucast_cmpeq_ne0 [simp]:
  "((ucast (if p then 0xFFFFFFFFFFFFFFFF else (0 :: uint64_t)) :: uint8_t) = 0) \<longleftrightarrow> \<not> p"
  by simp

lemma bit56_extract:
  "(drop_bit 8 (ucast (drop_bit 48 (w :: uint64_t)) :: uint16_t) AND 1 = 1) \<longleftrightarrow> bit w 56"
proof -
  have "(drop_bit 8 (ucast (drop_bit 48 w) :: uint16_t) AND 1 = 1)
      \<longleftrightarrow> bit (ucast (drop_bit 48 w) :: uint16_t) 8"
    by (simp add: bit_word_iff_drop_bit_and)
  also have "\<dots> \<longleftrightarrow> bit w 56"
    by (simp add: bit_ucast_iff bit_drop_bit_eq)
  finally show ?thesis .
qed

lemma big_integer_addition_simd_step15_nf:
  "big_integer_addition_simd_step15 a b c =
     (let r0 = lane0 a + lane0 b + bool_to_word c;
          ch = ((unat r0 < unat (lane0 a) \<or> unat r0 < unat (lane0 b))
                \<or> (lane0 a = 0xFFFFFFFFFFFFFFFF \<and> lane0 b = 0xFFFFFFFFFFFFFFFF \<and> c));
          r1 = lane1 a + lane1 b + bool_to_word ch
      in (\<lparr>lane0 = r0, lane1 = r1\<rparr>, bit r1 56))"
  unfolding big_integer_addition_simd_step15_def Let_def mm_set_epi32_carry
    mm_set_epi64x_def mm_and_si128_def mm_or_si128_def mm_add_epi64_def
        mm_sub_epi64_def mm_cmpeq_epi64_def mm_cmpgt_epi64_def mm_testz_si128_def
        mm_extract_epi8_0_def mm_extract_epi16_7_def bit56_extract
  apply (simp only: m128i.simps and_mask64 sint_flip_less)
  apply (simp add: bit56_extract del: and_mask64)
  apply (auto simp: bool_to_word_def)
  done

lemma carry64_detect:
  fixes A B r cn :: nat
  assumes "A < 2 ^ 64" "B < 2 ^ 64" "cn \<le> 1" "r = (A + B + cn) mod 2 ^ 64"
  shows "((r < A \<or> r < B) \<or> (A = 2 ^ 64 - 1 \<and> B = 2 ^ 64 - 1 \<and> cn = 1))
           \<longleftrightarrow> 2 ^ 64 \<le> A + B + cn"
proof (cases "2 ^ 64 \<le> A + B + cn")
  case False
  then have "r = A + B + cn" using assms by simp
  then show ?thesis using False assms by auto
next
  case True
  have "A + B + cn < 2 * 2 ^ 64" using assms by simp
  then have "(A + B + cn) mod 2 ^ 64 = A + B + cn - 2 ^ 64"
    using True by (simp add: mod_if)
  then have r: "r + 2 ^ 64 = A + B + cn" using assms True by simp
  show ?thesis
  proof (cases "r < A \<or> r < B")
    case True
    then show ?thesis using \<open>2 ^ 64 \<le> A + B + cn\<close> by simp
  next
    case False
    then have "A \<le> r" "B \<le> r" by simp_all
    then have "A = 2 ^ 64 - 1 \<and> B = 2 ^ 64 - 1 \<and> cn = 1" using r assms by simp
    then show ?thesis using \<open>2 ^ 64 \<le> A + B + cn\<close> by simp
  qed
qed

lemma bit56_iff:
  fixes w :: uint64_t
  assumes "unat w < 2 ^ 57"
  shows "bit w 56 \<longleftrightarrow> 2 ^ 56 \<le> unat w"
  using carry56_iff [OF assms] by (simp add: bit_word_iff_drop_bit_and)

lemma big_integer_addition_simd_step15_spec:
  assumes a1: "unat (lane1 a) < 2 ^ 56" and b1: "unat (lane1 b) < 2 ^ 56"
    and T: "T = (unat (lane0 a) + 2 ^ 64 * unat (lane1 a))
              + (unat (lane0 b) + 2 ^ 64 * unat (lane1 b)) + b2n c"
    and step: "big_integer_addition_simd_step15 a b c = (r, c')"
  shows "unat (lane0 r) + 2 ^ 64 * unat (lane1 r) = T \<and> c' = (2 ^ 120 \<le> T)"
proof -
  define A0 where "A0 = unat (lane0 a)"
  define B0 where "B0 = unat (lane0 b)"
  define S0 where "S0 = A0 + B0 + b2n c"
  define r0 where "r0 = lane0 a + lane0 b + bool_to_word c"
  define ch where "ch = ((unat r0 < unat (lane0 a) \<or> unat r0 < unat (lane0 b))
                \<or> (lane0 a = 0xFFFFFFFFFFFFFFFF \<and> lane0 b = 0xFFFFFFFFFFFFFFFF \<and> c))"
  define r1 where "r1 = lane1 a + lane1 b + bool_to_word ch"
  have r: "r = \<lparr>lane0 = r0, lane1 = r1\<rparr>" and c': "c' = bit r1 56"
    using step unfolding big_integer_addition_simd_step15_nf Let_def r0_def ch_def r1_def
    by simp_all
  have A0b: "A0 < 2 ^ 64" and B0b: "B0 < 2 ^ 64"
    using unsigned_less [of "lane0 a", where ?'a = nat] unsigned_less [of "lane0 b", where ?'a = nat]
    by (simp_all add: A0_def B0_def)
  have ur0: "unat r0 = S0 mod 2 ^ 64"
    by (simp add: r0_def S0_def A0_def B0_def unat_word_ariths mod_simps)
  have maxa: "(lane0 a = 0xFFFFFFFFFFFFFFFF) = (A0 = 2 ^ 64 - 1)"
    by (simp add: word_unat_eq_iff A0_def)
  have maxb: "(lane0 b = 0xFFFFFFFFFFFFFFFF) = (B0 = 2 ^ 64 - 1)"
    by (simp add: word_unat_eq_iff B0_def)
  have cb: "c = (b2n c = 1)" by (simp add: b2n_def)
  have ch_iff: "ch \<longleftrightarrow> 2 ^ 64 \<le> S0"
    unfolding ch_def maxa maxb S0_def
    using carry64_detect [OF A0b B0b b2n_le1 [of c] ur0 [unfolded S0_def]] cb
    by (simp add: A0_def B0_def)
  have S0b: "S0 < 2 * 2 ^ 64" using A0b B0b b2n_le1 [of c] by (simp add: S0_def)
  have S0div: "S0 div 2 ^ 64 = b2n ch"
  proof (cases ch)
    case True
    then have "2 ^ 64 \<le> S0" by (simp add: ch_iff)
    then have "S0 div 2 ^ 64 = 1" using S0b by (intro div_nat_eqI) simp_all
    then show ?thesis using True by (simp add: b2n_def)
  next
    case False
    then have "S0 < 2 ^ 64" by (simp add: ch_iff)
    then show ?thesis using False by (simp add: b2n_def)
  qed
  have ur1: "unat r1 = unat (lane1 a) + unat (lane1 b) + b2n ch"
  proof -
    have "unat (lane1 a) + unat (lane1 b) + b2n ch < 2 ^ 64"
      using a1 b1 b2n_le1 [of ch] by simp
    then show ?thesis by (simp add: r1_def unat_word_ariths)
  qed
  have r1b: "unat r1 < 2 ^ 57" using ur1 a1 b1 b2n_le1 [of ch] by simp
  have "S0 = S0 mod 2 ^ 64 + 2 ^ 64 * (S0 div 2 ^ 64)" by simp
  then have total: "unat r0 + 2 ^ 64 * unat r1 = T"
    unfolding ur0 ur1 T S0div [symmetric] S0_def A0_def B0_def
    by (simp add: algebra_simps)
  have Tdiv: "T div 2 ^ 64 = unat r1"
  proof -
    have "unat r0 < 2 ^ 64" using ur0 by simp
    then show ?thesis unfolding total [symmetric] by simp
  qed
  have "c' \<longleftrightarrow> 2 ^ 56 \<le> unat r1" unfolding c' by (rule bit56_iff [OF r1b])
  also have "\<dots> \<longleftrightarrow> 2 ^ 56 \<le> T div 2 ^ 64" by (simp only: Tdiv)
  also have "\<dots> \<longleftrightarrow> 2 ^ 120 \<le> T"
    by (simp add: less_eq_div_iff_mult_less_eq)
  finally show ?thesis using total by (simp add: r)
qed

lemma le_val_chunk15:
  assumes "i + 15 \<le> length xs"
  shows "le_val (take 15 (drop i xs))
       = le_val (take 8 (drop i xs)) + 2 ^ 64 * le_val (take 7 (drop (i + 8) xs))"
proof -
  have "i + 8 \<le> length xs" using assms by simp
  from le_val_take_drop_chunk [OF this, of 7] show ?thesis by simp
qed

lemma le_bytes_lanes:
  assumes "r0 < 2 ^ 64"
  shows "le_bytes 8 r0 @ le_bytes 7 r1 = le_bytes 15 (r0 + 2 ^ 64 * r1)"
proof -
  have "le_bytes (8 + 7) (r0 + 2 ^ 64 * r1)
      = le_bytes 8 (r0 + 2 ^ 64 * r1) @ le_bytes 7 ((r0 + 2 ^ 64 * r1) div 256 ^ 8)"
    by (rule le_bytes_append)
  moreover have "(r0 + 2 ^ 64 * r1) div 256 ^ 8 = r1" using assms by simp
  moreover have "le_bytes 8 (r0 + 2 ^ 64 * r1) = le_bytes 8 r0"
  proof -
    have "(r0 + 2 ^ 64 * r1) mod 256 ^ 8 = r0 mod 256 ^ 8" by simp
    then show ?thesis by (metis le_bytes_mod)
  qed
  ultimately show ?thesis by simp
qed

lemma get_15_bytes_lanes:
  assumes "i + 14 < big_length a"
  shows "\<exists>v. get_15_bytes__of_big_integer a i = Some v
           \<and> unat (lane1 v) < 2 ^ 56
           \<and> unat (lane0 v) + 2 ^ 64 * unat (lane1 v) = le_val (take 15 (drop i (mem a)))"
proof -
  define A0 where "A0 = le_val (take 8 (drop i (mem a)))"
  define A1 where "A1 = le_val (take 7 (drop (i + 8) (mem a)))"
  have la: "i + 15 \<le> length (mem a)" using assms by (simp add: big_length_def)
  have A0b: "A0 < 2 ^ 64"
    using le_val_chunk_bound [of i 8 "mem a"] la by (simp add: A0_def)
  have A1b: "A1 < 2 ^ 56"
    using le_val_chunk_bound [of "i + 8" 7 "mem a"] la by (simp add: A1_def)
  have "get_15_bytes__of_big_integer a i = Some \<lparr>lane0 = of_nat A0, lane1 = of_nat A1\<rparr>"
    using assms by (simp add: get_15_bytes__of_big_integer_def A0_def A1_def)
  moreover have "unat (of_nat A0 :: uint64_t) = A0" using A0b by (simp add: unat_of_nat)
  moreover have "unat (of_nat A1 :: uint64_t) = A1" using A1b by (simp add: unat_of_nat)
  ultimately show ?thesis using A1b le_val_chunk15 [OF la] by (simp add: A0_def A1_def)
qed

lemma big_integer_addition_simd_loop15_eq:
  "i \<le> big_length a \<Longrightarrow>
   big_integer_addition_simd_loop15 a b i c =
     Some (a\<lparr>mem := take i (mem a) @ le_bytes (big_length a - i) (add_sum a b i c)\<rparr>,
           256 ^ (big_length a - i) \<le> add_sum a b i c)"
proof (induction a b i c rule: big_integer_addition_simd_loop15.induct)
  case (1 a b i c)
  show ?case
  proof (cases "i + 14 < big_length a \<and> i + 14 < big_length b")
    case False
    have "big_integer_addition_simd_loop15 a b i c
        = big_integer_addition_simd_loop7 a b i c"
      by (subst big_integer_addition_simd_loop15.simps) (simp only: False if_False)
    then show ?thesis using "1.prems"
      by (simp add: big_integer_addition_simd_loop7_eq)
  next
    case True
    then have ia: "i + 15 \<le> big_length a" and ib: "i + 15 \<le> big_length b" by simp_all
    obtain va where ga: "get_15_bytes__of_big_integer a i = Some va"
      and va1: "unat (lane1 va) < 2 ^ 56"
      and vaT: "unat (lane0 va) + 2 ^ 64 * unat (lane1 va) = le_val (take 15 (drop i (mem a)))"
      using get_15_bytes_lanes [of i a] True by blast
    obtain vb where gb: "get_15_bytes__of_big_integer b i = Some vb"
      and vb1: "unat (lane1 vb) < 2 ^ 56"
      and vbT: "unat (lane0 vb) + 2 ^ 64 * unat (lane1 vb) = le_val (take 15 (drop i (mem b)))"
      using get_15_bytes_lanes [of i b] True by blast
    define T where "T = le_val (take 15 (drop i (mem a))) + le_val (take 15 (drop i (mem b))) + b2n c"
    obtain r c' where step: "big_integer_addition_simd_step15 va vb c = (r, c')"
      by (cases "big_integer_addition_simd_step15 va vb c")
    have spec: "unat (lane0 r) + 2 ^ 64 * unat (lane1 r) = T \<and> c' = (2 ^ 120 \<le> T)"
      by (rule big_integer_addition_simd_step15_spec [OF va1 vb1 _ step])
         (simp add: T_def vaT [symmetric] vbT [symmetric])
    define a' where "a' = a\<lparr>mem := take i (mem a) @ le_bytes 15 T @ drop (i + 15) (mem a)\<rparr>"
    have r0b: "unat (lane0 r) < 2 ^ 64"
      using unsigned_less [of "lane0 r", where ?'a = nat] by simp
    have sa: "set_15_bytes__of_big_integer a i r = Some a'"
      using True le_bytes_lanes [OF r0b, of "unat (lane1 r)"] spec
      by (simp add: set_15_bytes__of_big_integer_def a'_def)
    have c'_iff: "c' = (256 ^ 15 \<le> T)" using spec by simp
    have len': "i + 15 \<le> big_length a'" using ia by (simp add: a'_def big_length_def)
    have IH: "big_integer_addition_simd_loop15 a' b (i + 15) c' =
       Some (a'\<lparr>mem := take (i + 15) (mem a')
                  @ le_bytes (big_length a' - (i + 15)) (add_sum a' b (i + 15) c')\<rparr>,
          256 ^ (big_length a' - (i + 15)) \<le> add_sum a' b (i + 15) c')"
      by (rule "1.IH" [OF True ga gb step [symmetric] refl sa len'])
    have unfold: "big_integer_addition_simd_loop15 a b i c =
        big_integer_addition_simd_loop15 a' b (i + 15) c'"
      using True
      by (subst big_integer_addition_simd_loop15.simps) (simp add: ga gb sa step)
    show ?thesis
      unfolding unfold IH
      using add_chunk_step [OF ia ib T_def a'_def c'_iff] by simp
  qed
qed

lemma big_integer_addition_sisd_eq:
  "big_integer_addition_sisd a b =
     a\<lparr>mem := le_bytes (big_length a) (le_val (mem a) + le_val (take (big_length a) (mem b)))\<rparr>"
  by (simp add: big_integer_addition_sisd_def big_integer_addition_byte_loop_eq add_sum_def
        b2n_def)

text \<open>The SIMD addition writes what the byte-wise addition writes.\<close>

lemma big_integer_addition_simd_eq_sisd:
  "big_integer_addition_simd a b = Some (big_integer_addition_sisd a b)"
  by (simp add: big_integer_addition_simd_def big_integer_addition_simd_loop15_eq
        big_integer_addition_sisd_def big_integer_addition_byte_loop_eq)

subsection \<open>Closed forms of the subtraction loops\<close>

lemma le_val_take_drop_chunk':
  "le_val (take (m + k) (drop i ys))
     = le_val (take m (drop i ys)) + 256 ^ m * le_val (take k (drop (i + m) ys))"
proof (cases "i + m \<le> length ys")
  case True
  then show ?thesis by (rule le_val_take_drop_chunk)
next
  case False
  then have "drop (i + m) ys = []" "take (m + k) (drop i ys) = take m (drop i ys)" by simp_all
  then show ?thesis by simp
qed

text \<open>The \<open>k\<close> low bytes of an integer in two's complement.\<close>

definition le_bytes_int :: "nat \<Rightarrow> int \<Rightarrow> uint8_t list" where
  "le_bytes_int k d = le_bytes k (nat (d mod 256 ^ k))"

lemma le_bytes_int_cong:
  "int v mod 256 ^ k = d mod 256 ^ k \<Longrightarrow> le_bytes k v = le_bytes_int k d"
proof -
  assume a: "int v mod 256 ^ k = d mod 256 ^ k"
  have "nat (d mod 256 ^ k) = nat (int v mod 256 ^ k)" using a by simp
  also have "\<dots> = v mod 256 ^ k"
    by (metis nat_int of_nat_mod of_nat_numeral of_nat_power)
  finally show ?thesis by (simp add: le_bytes_int_def le_bytes_mod)
qed

lemma le_bytes_int_append:
  "le_bytes_int (m + k) d = le_bytes_int m d @ le_bytes_int k (d div 256 ^ m)"
proof -
  define v where "v = nat (d mod 256 ^ (m + k))"
  have v: "int v = d mod 256 ^ (m + k)" by (simp add: v_def)
  have "le_bytes (m + k) v = le_bytes m v @ le_bytes k (v div 256 ^ m)"
    by (rule le_bytes_append)
  moreover have "le_bytes m v = le_bytes_int m d"
  proof (rule le_bytes_int_cong)
    have "(d mod 256 ^ (m + k)) mod 256 ^ m = d mod 256 ^ m"
      by (simp add: power_add mod_mod_cancel)
    then show "int v mod 256 ^ m = d mod 256 ^ m" by (simp add: v)
  qed
  moreover have "le_bytes k (v div 256 ^ m) = le_bytes_int k (d div 256 ^ m)"
  proof (rule le_bytes_int_cong)
    have "int (v div 256 ^ m) = (d mod 256 ^ (m + k)) div 256 ^ m"
      by (simp add: v [symmetric] zdiv_int)
    also have "\<dots> = (d div 256 ^ m) mod 256 ^ k"
      by (simp add: power_add zmod_zmult2_eq)
    finally show "int (v div 256 ^ m) mod 256 ^ k = (d div 256 ^ m) mod 256 ^ k" by simp
  qed
  ultimately show ?thesis by (simp add: le_bytes_int_def v_def)
qed

text \<open>The difference the byte loop still has to produce when it stands at index \<open>i\<close>.\<close>

definition sub_diff :: "big_integer \<Rightarrow> big_integer \<Rightarrow> nat \<Rightarrow> bool \<Rightarrow> int" where
  "sub_diff a b i c =
     int (le_val (drop i (mem a))) - int (le_val (take (big_length a - i) (drop i (mem b))))
       - int (b2n c)"

lemma sub_chunk_step:
  assumes ia: "i + m \<le> big_length a"
    and T: "T = int (le_val (take m (drop i (mem a)))) - int (le_val (take m (drop i (mem b))))
                 - int (b2n c)"
    and V: "int V mod 256 ^ m = T mod 256 ^ m"
    and a': "a' = a\<lparr>mem := take i (mem a) @ le_bytes m V @ drop (i + m) (mem a)\<rparr>"
    and c': "c' = (T < 0)"
  shows "(a'\<lparr>mem := take (i + m) (mem a')
                  @ le_bytes_int (big_length a' - (i + m)) (sub_diff a' b (i + m) c')\<rparr>,
          sub_diff a' b (i + m) c' < 0)
       = (a\<lparr>mem := take i (mem a) @ le_bytes_int (big_length a - i) (sub_diff a b i c)\<rparr>,
          sub_diff a b i c < 0)"
proof -
  define k where "k = big_length a - (i + m)"
  have n: "big_length a - i = m + k" using ia by (simp add: k_def)
  define A' where "A' = int (le_val (drop (i + m) (mem a)))"
  define B' where "B' = int (le_val (take k (drop (i + m) (mem b))))"
  have la: "i + m \<le> length (mem a)" using ia by (simp add: big_length_def)
  have len': "big_length a' = big_length a" using la by (simp add: a' big_length_def)
  have dr': "drop (i + m) (mem a') = drop (i + m) (mem a)" using la by (simp add: a')
  have tk': "take (i + m) (mem a') = take i (mem a) @ le_bytes m V" using la by (simp add: a')
  have Tlo: "- (256 ^ m) \<le> T" and Thi: "T < 256 ^ m"
  proof -
    have 1: "int (le_val (take m (drop i (mem a)))) < 256 ^ m"
      using le_val_chunk_bound [OF la] by (metis of_nat_less_iff of_nat_numeral of_nat_power)
    have "length (take m (drop i (mem b))) \<le> m" by simp
    then have "(256::nat) ^ length (take m (drop i (mem b))) \<le> 256 ^ m"
      by (intro power_increasing) simp_all
    then have "le_val (take m (drop i (mem b))) < 256 ^ m"
      using le_val_bound [of "take m (drop i (mem b))"] by linarith
    then have 2: "int (le_val (take m (drop i (mem b)))) < 256 ^ m"
      by (metis of_nat_less_iff of_nat_numeral of_nat_power)
    have 3: "int (b2n c) \<le> 1" using b2n_le1 [of c] by simp
    show "- (256 ^ m) \<le> T" unfolding T using 1 2 3 by linarith
    show "T < 256 ^ m" unfolding T using 1 2 3 by linarith
  qed
  have Tdiv: "T div 256 ^ m = - int (b2n c')"
  proof (cases c')
    case True
    then have "T < 0" by (simp add: c')
    then have "T div 256 ^ m = - 1" using Tlo
      by (intro int_div_pos_eq [where r = "T + 256 ^ m"]) simp_all
    then show ?thesis using True by (simp add: b2n_def)
  next
    case False
    then have "0 \<le> T" by (simp add: c')
    then have "T div 256 ^ m = 0" using Thi by simp
    then show ?thesis using False by (simp add: b2n_def)
  qed
  have S: "sub_diff a b i c = T + 256 ^ m * (A' - B')"
    unfolding sub_diff_def n T A'_def B'_def
    using le_val_drop_chunk [OF la] le_val_take_drop_chunk' [of m k i "mem b"]
    by (simp add: algebra_simps)
  have S': "sub_diff a' b (i + m) c' = A' - B' - int (b2n c')"
    by (simp add: sub_diff_def len' dr' A'_def B'_def k_def)
  have Sdiv: "sub_diff a b i c div 256 ^ m = sub_diff a' b (i + m) c'"
    unfolding S S' using Tdiv by simp
  have Smod: "le_bytes_int m (sub_diff a b i c) = le_bytes m V"
  proof -
    have "sub_diff a b i c mod 256 ^ m = T mod 256 ^ m" unfolding S by simp
    then show ?thesis using le_bytes_int_cong [of V m "sub_diff a b i c"] V by simp
  qed
  have bytes: "le_bytes_int (m + k) (sub_diff a b i c)
      = le_bytes m V @ le_bytes_int k (sub_diff a' b (i + m) c')"
    by (simp add: le_bytes_int_append Smod Sdiv)
  have fin: "(sub_diff a b i c < 0) \<longleftrightarrow> (sub_diff a' b (i + m) c' < 0)"
    unfolding Sdiv [symmetric] by (simp add: pos_imp_zdiv_neg_iff)
  have upd: "\<And>X. a'\<lparr>mem := X\<rparr> = a\<lparr>mem := X\<rparr>" by (simp add: a')
  show ?thesis
    by (simp add: len' n tk' bytes fin upd k_def [symmetric])
qed

lemma uint_bool_to_word [simp]: "uint (bool_to_word c :: 'a::len word) = int (b2n c)"
  by (simp add: bool_to_word_def b2n_def)

lemma uint_ucast_8_16 [simp]: "uint (ucast (x :: uint8_t) :: uint16_t) = uint x"
  by (metis uint_nat unat_ucast_8_16)

lemma bit_word_int: "bit (w :: 'a::len word) n \<longleftrightarrow> odd (uint w div 2 ^ n)"
proof -
  have "uint w div 2 ^ n = int (unat w div 2 ^ n)"
    unfolding uint_nat by (simp add: zdiv_int)
  then show ?thesis by (simp add: bit_word_nat)
qed

lemma sub_step_uint:
  fixes x y :: uint8_t and c :: bool
  shows "uint (ucast x - ucast y - bool_to_word c :: uint16_t)
           = (uint x - uint y - int (b2n c)) mod 65536"
proof -
  have "uint (ucast x - ucast y - bool_to_word c :: uint16_t)
      = (uint (ucast x - ucast y :: uint16_t) - uint (bool_to_word c :: uint16_t)) mod 2 ^ 16"
    by (simp only: uint_word_ariths len_bit0 len_num1 mult_numeral_1_right One_nat_def) simp
  also have "uint (ucast x - ucast y :: uint16_t) = (uint x - uint y) mod 2 ^ 16"
    by (simp add: uint_word_ariths)
  finally show ?thesis by (simp add: mod_diff_left_eq)
qed

lemma uint_ucast_16_8: "uint (ucast (w :: uint16_t) :: uint8_t) = uint w mod 256"
  by (simp add: unsigned_ucast_eq take_bit_eq_mod)

lemma sub_step:
  fixes x y :: uint8_t and c :: bool
  defines "d \<equiv> uint x - uint y - int (b2n c)"
  defines "res \<equiv> (ucast x - ucast y - bool_to_word c :: uint16_t)"
  shows "uint (ucast res :: uint8_t) mod 256 = d mod 256"
    and "(drop_bit 15 res AND 1 = 1) \<longleftrightarrow> d < 0"
proof -
  have xb: "uint x < 256" and yb: "uint y < 256"
    using uint_bounded [of x] uint_bounded [of y] by simp_all
  have xl: "0 \<le> uint x" and yl: "0 \<le> uint y" by simp_all
  have cb: "int (b2n c) \<le> 1" "0 \<le> int (b2n c)" using b2n_le1 [of c] by simp_all
  have dlo: "- 257 \<le> d" and dhi: "d < 256"
    using xb yb xl yl cb unfolding d_def by linarith+
  have ures: "uint res = d mod 65536"
    unfolding res_def d_def by (rule sub_step_uint)
  have "uint (ucast res :: uint8_t) = (d mod 65536) mod 256"
    by (simp only: uint_ucast_16_8 ures)
  also have "\<dots> = d mod 256" by (simp add: mod_mod_cancel)
  finally show "uint (ucast res :: uint8_t) mod 256 = d mod 256" by simp
  have "(drop_bit 15 res AND 1 = 1) \<longleftrightarrow> odd (uint res div 2 ^ 15)"
    by (simp flip: bit_word_iff_drop_bit_and add: bit_word_int)
  also have "\<dots> \<longleftrightarrow> d < 0"
  proof (cases "d < 0")
    case True
    have "d mod 65536 = d + 65536"
      by (rule int_mod_pos_eq [where q = "- 1"]) (use True dlo in simp_all)
    then have "uint res div 2 ^ 15 = 1" using True dlo ures by simp
    then show ?thesis using True by simp
  next
    case False
    then have "d mod 65536 = d" using dhi by simp
    then have "uint res div 2 ^ 15 = 0" using False dhi ures by simp
    then show ?thesis using False by simp
  qed
  finally show "(drop_bit 15 res AND 1 = 1) \<longleftrightarrow> d < 0" .
qed

lemma le_val_take1:
  "le_val (take (Suc 0) (drop i xs)) = (if i < length xs then unat (xs ! i) else 0)"
  by (cases "i < length xs") (simp_all flip: Cons_nth_drop_Suc)

lemma big_integer_subtraction_byte_loop_eq:
  "i \<le> big_length a \<Longrightarrow>
   big_integer_subtraction_byte_loop a b i c =
     (a\<lparr>mem := take i (mem a) @ le_bytes_int (big_length a - i) (sub_diff a b i c)\<rparr>,
      sub_diff a b i c < 0)"
proof (induction a b i c rule: big_integer_subtraction_byte_loop.induct)
  case (1 a b i c)
  show ?case
  proof (cases "i < big_length a")
    case False
    then have "i = big_length a" using "1.prems" by simp
    then show ?thesis
      by (subst big_integer_subtraction_byte_loop.simps)
         (simp add: sub_diff_def big_length_def b2n_def le_bytes_int_def)
  next
    case True
    define y :: uint8_t where "y = (if i < big_length b then mem b ! i else 0)"
    define res :: uint16_t where "res = ucast (mem a ! i) - ucast y - bool_to_word c"
    define T where "T = uint (mem a ! i) - uint y - int (b2n c)"
    define c' where "c' = (drop_bit 15 res AND 1 = 1)"
    define V where "V = unat (ucast res :: uint8_t)"
    define a' where "a' = a\<lparr>mem := (mem a)[i := ucast res]\<rparr>"
    have res_eq: "res = (if i < big_length b
                   then ucast (mem a ! i) - ucast (mem b ! i) - bool_to_word c
                   else ucast (mem a ! i) - bool_to_word c)"
      by (simp add: res_def y_def)
    have ia: "i + 1 \<le> big_length a" using True by simp
    have T1: "T = int (le_val (take 1 (drop i (mem a)))) - int (le_val (take 1 (drop i (mem b))))
                 - int (b2n c)"
      using True by (simp add: T_def y_def le_val_take1 big_length_def)
    have Vm: "int V mod 256 ^ 1 = T mod 256 ^ 1"
      using sub_step(1) [of "mem a ! i" y c] by (simp add: V_def res_def T_def)
    have c'_iff: "c' = (T < 0)"
      using sub_step(2) [of "mem a ! i" y c] by (simp add: c'_def res_def T_def)
    have a'_eq: "a' = a\<lparr>mem := take i (mem a) @ le_bytes 1 V @ drop (i + 1) (mem a)\<rparr>"
      using True by (simp add: a'_def V_def upd_conv_take_nth_drop big_length_def)
    have len': "i + 1 \<le> big_length a'" using True by (simp add: a'_def big_length_def)
    have IH: "big_integer_subtraction_byte_loop a' b (i + 1) c' =
       (a'\<lparr>mem := take (i + 1) (mem a')
             @ le_bytes_int (big_length a' - (i + 1)) (sub_diff a' b (i + 1) c')\<rparr>,
        sub_diff a' b (i + 1) c' < 0)"
      unfolding a'_def c'_def res_eq
      by (rule "1.IH" [OF True refl refl refl]) (use True in \<open>simp add: big_length_def\<close>)
    have unfold: "big_integer_subtraction_byte_loop a b i c =
        big_integer_subtraction_byte_loop a' b (i + 1) c'"
      using True
      by (subst big_integer_subtraction_byte_loop.simps)
         (simp add: a'_def c'_def res_eq Let_def)
    show ?thesis
      unfolding unfold IH
      by (rule sub_chunk_step [OF ia T1 Vm a'_eq c'_iff])
  qed
qed

lemma uint_of_nat_64: "n < 2 ^ 64 \<Longrightarrow> uint (of_nat n :: uint64_t) = int n"
  by (metis uint_nat unat_of_nat_64)

lemma uint_sub3_64:
  fixes x y z :: uint64_t
  shows "uint (x - y - z) = (uint x - uint y - uint z) mod 2 ^ 64"
proof -
  have "uint (x - y - z) = (uint (x - y) - uint z) mod 2 ^ 64"
    by (simp only: uint_word_ariths len_bit0 len_num1 mult_numeral_1_right One_nat_def) simp
  also have "uint (x - y) = (uint x - uint y) mod 2 ^ 64"
    by (simp add: uint_word_ariths)
  finally show ?thesis by (simp add: mod_diff_left_eq)
qed

lemma sub7_spec:
  fixes A B :: nat and c :: bool
  assumes "A < 2 ^ 56" "B < 2 ^ 56"
  defines "T \<equiv> int A - int B - int (b2n c)"
  defines "res \<equiv> (of_nat A - of_nat B - bool_to_word c :: uint64_t)"
  shows "int (unat res) mod 256 ^ 7 = T mod 256 ^ 7"
    and "(drop_bit 56 res AND 1 = 1) \<longleftrightarrow> T < 0"
proof -
  have cb: "int (b2n c) \<le> 1" "0 \<le> int (b2n c)" using b2n_le1 [of c] by simp_all
  have iA: "int A < 2 ^ 56" "int B < 2 ^ 56" "0 \<le> int A" "0 \<le> int B"
    using assms(1,2) by simp_all
  have Tlo: "- (2 ^ 56) \<le> T" and Thi: "T < 2 ^ 56"
    using iA cb unfolding T_def by linarith+
  have ures: "uint res = T mod 2 ^ 64"
    unfolding res_def T_def using assms(1,2)
    by (simp only: uint_sub3_64 uint_bool_to_word) (simp add: uint_of_nat_64)
  have "int (unat res) = uint res" by simp
  also have "\<dots> mod 256 ^ 7 = T mod 256 ^ 7" unfolding ures by (simp add: mod_mod_cancel)
  finally show "int (unat res) mod 256 ^ 7 = T mod 256 ^ 7" .
  have "(drop_bit 56 res AND 1 = 1) \<longleftrightarrow> odd (uint res div 2 ^ 56)"
    by (simp flip: bit_word_iff_drop_bit_and add: bit_word_int)
  also have "\<dots> \<longleftrightarrow> T < 0"
  proof (cases "T < 0")
    case True
    have "T mod 2 ^ 64 = T + 2 ^ 64"
      by (rule int_mod_pos_eq [where q = "- 1"]) (use True Tlo in simp_all)
    moreover have "(T + 2 ^ 64) div 2 ^ 56 = 255"
      by (rule int_div_pos_eq [where r = "T + 2 ^ 56"]) (use True Tlo in simp_all)
    ultimately have "uint res div 2 ^ 56 = 255" using ures by simp
    then show ?thesis using True by simp
  next
    case False
    then have "T mod 2 ^ 64 = T" using Thi by simp
    then have "uint res div 2 ^ 56 = 0" using False Thi ures by simp
    then show ?thesis using False by simp
  qed
  finally show "(drop_bit 56 res AND 1 = 1) \<longleftrightarrow> T < 0" .
qed

lemma big_integer_subtraction_simd_loop7_eq:
  "i \<le> big_length a \<Longrightarrow>
   big_integer_subtraction_simd_loop7 a b i c =
     Some (a\<lparr>mem := take i (mem a) @ le_bytes_int (big_length a - i) (sub_diff a b i c)\<rparr>,
           sub_diff a b i c < 0)"
proof (induction a b i c rule: big_integer_subtraction_simd_loop7.induct)
  case (1 a b i c)
  show ?case
  proof (cases "i + 6 < big_length a \<and> i + 6 < big_length b")
    case False
    have "big_integer_subtraction_simd_loop7 a b i c
        = Some (big_integer_subtraction_byte_loop a b i c)"
      by (subst big_integer_subtraction_simd_loop7.simps) (simp only: False if_False)
    then show ?thesis using "1.prems"
      by (simp add: big_integer_subtraction_byte_loop_eq)
  next
    case True
    then have ia: "i + 7 \<le> big_length a" and ib: "i + 7 \<le> big_length b" by simp_all
    define A where "A = le_val (take 7 (drop i (mem a)))"
    define B where "B = le_val (take 7 (drop i (mem b)))"
    define T where "T = int A - int B - int (b2n c)"
    define res :: uint64_t where "res = of_nat A - of_nat B - bool_to_word c"
    define c' where "c' = (drop_bit 56 res AND 1 = 1)"
    define a' where
      "a' = a\<lparr>mem := take i (mem a) @ le_bytes 7 (unat res) @ drop (i + 7) (mem a)\<rparr>"
    have Ab: "A < 2 ^ 56" and Bb: "B < 2 ^ 56"
      using le_val_chunk_bound [of i 7 "mem a"] le_val_chunk_bound [of i 7 "mem b"] ia ib
      by (simp_all add: A_def B_def big_length_def)
    have ga: "get_7_bytes__of_big_integer a i = Some (of_nat A)"
      using True by (simp add: get_7_bytes__of_big_integer_def A_def)
    have gb: "get_7_bytes__of_big_integer b i = Some (of_nat B)"
      using True by (simp add: get_7_bytes__of_big_integer_def B_def)
    have sa: "set_7_bytes__of_big_integer a i res = Some a'"
      using True by (simp add: set_7_bytes__of_big_integer_def a'_def)
    have Vm: "int (unat res) mod 256 ^ 7 = T mod 256 ^ 7"
      unfolding res_def T_def by (rule sub7_spec(1) [OF Ab Bb])
    have c'_iff: "c' = (T < 0)"
      unfolding c'_def res_def T_def by (rule sub7_spec(2) [OF Ab Bb])
    have len': "i + 7 \<le> big_length a'" using ia by (simp add: a'_def big_length_def)
    have IH: "big_integer_subtraction_simd_loop7 a' b (i + 7) c' =
       Some (a'\<lparr>mem := take (i + 7) (mem a')
                  @ le_bytes_int (big_length a' - (i + 7)) (sub_diff a' b (i + 7) c')\<rparr>,
          sub_diff a' b (i + 7) c' < 0)"
      using "1.IH" [OF True ga gb refl refl refl sa [unfolded res_def] len']
      by (simp add: c'_def res_def)
    have unfold: "big_integer_subtraction_simd_loop7 a b i c =
        big_integer_subtraction_simd_loop7 a' b (i + 7) c'"
      using True
      by (subst big_integer_subtraction_simd_loop7.simps)
         (simp add: ga gb sa c'_def res_def [symmetric] Let_def)
    have T7: "T = int (le_val (take 7 (drop i (mem a)))) - int (le_val (take 7 (drop i (mem b))))
                 - int (b2n c)"
      by (simp add: T_def A_def B_def)
    show ?thesis
      unfolding unfold IH
      using sub_chunk_step [OF ia T7 Vm a'_def c'_iff] by simp
  qed
qed

lemma bit63_extract:
  "(drop_bit 15 (ucast (drop_bit 48 (w :: uint64_t)) :: uint16_t) AND 1 = 1) \<longleftrightarrow> bit w 63"
proof -
  have "(drop_bit 15 (ucast (drop_bit 48 w) :: uint16_t) AND 1 = 1)
      \<longleftrightarrow> bit (ucast (drop_bit 48 w) :: uint16_t) 15"
    by (simp add: bit_word_iff_drop_bit_and)
  also have "\<dots> \<longleftrightarrow> bit w 63"
    by (simp add: bit_ucast_iff bit_drop_bit_eq)
  finally show ?thesis .
qed

lemma cmp_lane_zero [simp]:
  "((if p then 0xFFFFFFFFFFFFFFFF else (0 :: uint64_t)) = 0) \<longleftrightarrow> \<not> p"
  by simp

lemma big_integer_subtraction_simd_step15_nf:
  "big_integer_subtraction_simd_step15 a b c =
     (let r0 = lane0 a - lane0 b - bool_to_word c;
          bh = (unat (lane0 a) < unat r0 \<or> (lane0 b = 0xFFFFFFFFFFFFFFFF \<and> c));
          r1 = lane1 a - lane1 b - bool_to_word bh
      in (\<lparr>lane0 = r0, lane1 = r1\<rparr>, bit r1 63))"
  unfolding big_integer_subtraction_simd_step15_def Let_def mm_set_epi32_carry
    mm_set_epi64x_def mm_and_si128_def mm_or_si128_def mm_add_epi64_def
        mm_sub_epi64_def mm_cmpeq_epi64_def mm_cmpgt_epi64_def mm_testz_si128_def
        mm_extract_epi8_0_def mm_extract_epi16_7_def bit63_extract
  apply (simp only: m128i.simps and_mask64 sint_flip_less)
  apply (simp add: bit63_extract del: and_mask64)
  apply (auto simp: bool_to_word_def)
  done

lemma borrow64_detect:
  fixes A B r cn :: int
  assumes "0 \<le> A" "A < 2 ^ 64" "0 \<le> B" "B < 2 ^ 64" "0 \<le> cn" "cn \<le> 1"
    and "r = (A - B - cn) mod 2 ^ 64"
  shows "(A < r \<or> (B = 2 ^ 64 - 1 \<and> cn = 1)) \<longleftrightarrow> A - B - cn < 0"
proof (cases "A - B - cn < 0")
  case False
  then have "r = A - B - cn" using assms by simp
  then show ?thesis using False assms by auto
next
  case True
  have "(A - B - cn) mod 2 ^ 64 = A - B - cn + 2 ^ 64"
    by (rule int_mod_pos_eq [where q = "- 1"]) (use True assms in simp_all)
  then have r: "r = A - B - cn + 2 ^ 64" using assms by simp
  show ?thesis using True r assms by auto
qed

lemma neg_iff_high_part:
  fixes x s :: int
  assumes "0 \<le> x" "x < 18446744073709551616"
  shows "(x + 18446744073709551616 * s < 0) = (s < 0)"
proof (cases "s < 0")
  case True
  then have "x + 18446744073709551616 * s < 0" using assms by linarith
  then show ?thesis using True by simp
next
  case False
  then have "\<not> x + 18446744073709551616 * s < 0" using assms by linarith
  then show ?thesis using False by simp
qed

lemma big_integer_subtraction_simd_step15_spec:
  assumes a1: "unat (lane1 a) < 2 ^ 56" and b1: "unat (lane1 b) < 2 ^ 56"
    and T: "T = (uint (lane0 a) + 2 ^ 64 * uint (lane1 a))
              - (uint (lane0 b) + 2 ^ 64 * uint (lane1 b)) - int (b2n c)"
    and step: "big_integer_subtraction_simd_step15 a b c = (r, c')"
  shows "(uint (lane0 r) + 2 ^ 64 * uint (lane1 r)) mod 2 ^ 120 = T mod 2 ^ 120 \<and> c' = (T < 0)"
proof -
  define A0 where "A0 = uint (lane0 a)"
  define B0 where "B0 = uint (lane0 b)"
  define A1 where "A1 = uint (lane1 a)"
  define B1 where "B1 = uint (lane1 b)"
  define S0 where "S0 = A0 - B0 - int (b2n c)"
  define r0 where "r0 = lane0 a - lane0 b - bool_to_word c"
  define bh where "bh = (unat (lane0 a) < unat r0 \<or> (lane0 b = 0xFFFFFFFFFFFFFFFF \<and> c))"
  define r1 where "r1 = lane1 a - lane1 b - bool_to_word bh"
  define S1 where "S1 = A1 - B1 - int (b2n bh)"
  have r: "r = \<lparr>lane0 = r0, lane1 = r1\<rparr>" and c': "c' = bit r1 63"
    using step unfolding big_integer_subtraction_simd_step15_nf Let_def r0_def bh_def r1_def
    by simp_all
  have A0b: "0 \<le> A0" "A0 < 2 ^ 64" and B0b: "0 \<le> B0" "B0 < 2 ^ 64"
    using uint_bounded [of "lane0 a"] uint_bounded [of "lane0 b"]
    by (simp_all add: A0_def B0_def)
  have "uint (lane1 a) < int (2 ^ 56)" "uint (lane1 b) < int (2 ^ 56)"
    unfolding uint_nat using a1 b1 by (simp_all only: of_nat_less_iff)
  then have A1b: "0 \<le> A1" "A1 < 2 ^ 56" and B1b: "0 \<le> B1" "B1 < 2 ^ 56"
    by (simp_all add: A1_def B1_def)
  have cb: "0 \<le> int (b2n c)" "int (b2n c) \<le> 1" using b2n_le1 [of c] by simp_all
  have bb: "0 \<le> int (b2n bh)" "int (b2n bh) \<le> 1" using b2n_le1 [of bh] by simp_all
  have ur0: "uint r0 = S0 mod 2 ^ 64"
    unfolding r0_def S0_def A0_def B0_def by (simp only: uint_sub3_64 uint_bool_to_word)
  have ur1: "uint r1 = S1 mod 2 ^ 64"
    unfolding r1_def S1_def A1_def B1_def by (simp only: uint_sub3_64 uint_bool_to_word)
  have lt: "(unat (lane0 a) < unat r0) = (A0 < uint r0)"
    by (simp add: A0_def word_less_nat_alt [symmetric] word_less_def)
  have maxb: "(lane0 b = 0xFFFFFFFFFFFFFFFF) = (B0 = 2 ^ 64 - 1)"
    by (simp add: word_uint_eq_iff B0_def)
  have cb1: "c = (int (b2n c) = 1)" by (simp add: b2n_def)
  have bh_iff: "bh \<longleftrightarrow> S0 < 0"
    unfolding bh_def lt maxb S0_def
    using borrow64_detect [OF A0b B0b cb ur0 [unfolded S0_def]] cb1 by simp
  have S0lo: "- (2 ^ 64) - 1 \<le> S0" and S0hi: "S0 < 2 ^ 64"
    using A0b B0b cb unfolding S0_def by linarith+
  have S0div: "S0 div 2 ^ 64 = - int (b2n bh)"
  proof (cases bh)
    case True
    then have neg: "S0 < 0" by (simp add: bh_iff)
    have "- (2 ^ 64) \<le> S0" using A0b B0b cb unfolding S0_def by linarith
    then have "S0 div 2 ^ 64 = - 1" using neg
      by (intro int_div_pos_eq [where r = "S0 + 2 ^ 64"]) simp_all
    then show ?thesis using True by (simp add: b2n_def)
  next
    case False
    then have "0 \<le> S0" by (simp add: bh_iff)
    then have "S0 div 2 ^ 64 = 0" using S0hi by simp
    then show ?thesis using False by (simp add: b2n_def)
  qed
  have S1lo: "- (2 ^ 56) \<le> S1" and S1hi: "S1 < 2 ^ 56"
    using A1b B1b bb unfolding S1_def by linarith+
  define m0 where "m0 = S0 mod 2 ^ 64"
  define q0 where "q0 = S0 div 2 ^ 64"
  have dm: "S0 = m0 + 2 ^ 64 * q0" by (simp add: m0_def q0_def)
  have T0: "T = S0 + 2 ^ 64 * (A1 - B1)"
    by (simp add: T S0_def A0_def B0_def A1_def B1_def algebra_simps)
  have m0: "uint r0 = m0" by (simp add: ur0 m0_def)
  have q0: "q0 = - int (b2n bh)" unfolding q0_def by (rule S0div)
  have "T = m0 + 2 ^ 64 * q0 + 2 ^ 64 * (A1 - B1)" using T0 dm by simp
  then have Teq: "T = uint r0 + 2 ^ 64 * S1"
    unfolding m0 q0 S1_def by (simp add: algebra_simps)
  define m1 where "m1 = S1 mod 2 ^ 64"
  define q1 where "q1 = S1 div 2 ^ 64"
  have dm1: "S1 = m1 + 2 ^ 64 * q1" by (simp add: m1_def q1_def)
  have um1: "uint r1 = m1" by (simp add: ur1 m1_def)
  have "uint r0 + 2 ^ 64 * uint r1 = T + 2 ^ 120 * (- (2 ^ 8) * q1)"
    unfolding um1 Teq by (subst dm1) (simp add: algebra_simps)
  then have total: "(uint r0 + 2 ^ 64 * uint r1) mod 2 ^ 120 = T mod 2 ^ 120"
    by (metis mod_mult_self2)
  have r0b: "0 \<le> uint r0" "uint r0 < 2 ^ 64" using uint_bounded [of r0] by simp_all
  have Tneg: "T < 0 \<longleftrightarrow> S1 < 0"
    unfolding Teq using neg_iff_high_part [of "uint r0" S1] r0b by simp
  have "c' \<longleftrightarrow> odd (uint r1 div 2 ^ 63)" unfolding c' by (rule bit_word_int)
  also have "\<dots> \<longleftrightarrow> S1 < 0"
  proof (cases "S1 < 0")
    case True
    have "S1 mod 2 ^ 64 = S1 + 2 ^ 64"
      by (rule int_mod_pos_eq [where q = "- 1"]) (use True S1lo in simp_all)
    moreover have "(S1 + 2 ^ 64) div 2 ^ 63 = 1"
      by (rule int_div_pos_eq [where r = "S1 + 2 ^ 63"]) (use True S1lo in simp_all)
    ultimately have "uint r1 div 2 ^ 63 = 1" using ur1 by simp
    then show ?thesis using True by simp
  next
    case False
    then have "S1 mod 2 ^ 64 = S1" using S1hi by simp
    then have "uint r1 div 2 ^ 63 = 0" using False S1hi ur1 by simp
    then show ?thesis using False by simp
  qed
  finally show ?thesis using total Tneg by (simp add: r)
qed

lemma big_integer_subtraction_simd_loop15_eq:
  "i \<le> big_length a \<Longrightarrow>
   big_integer_subtraction_simd_loop15 a b i c =
     Some (a\<lparr>mem := take i (mem a) @ le_bytes_int (big_length a - i) (sub_diff a b i c)\<rparr>,
           sub_diff a b i c < 0)"
proof (induction a b i c rule: big_integer_subtraction_simd_loop15.induct)
  case (1 a b i c)
  show ?case
  proof (cases "i + 14 < big_length a \<and> i + 14 < big_length b")
    case False
    have "big_integer_subtraction_simd_loop15 a b i c
        = big_integer_subtraction_simd_loop7 a b i c"
      by (subst big_integer_subtraction_simd_loop15.simps) (simp only: False if_False)
    then show ?thesis using "1.prems"
      by (simp add: big_integer_subtraction_simd_loop7_eq)
  next
    case True
    then have ia: "i + 15 \<le> big_length a" and ib: "i + 15 \<le> big_length b" by simp_all
    obtain va where ga: "get_15_bytes__of_big_integer a i = Some va"
      and va1: "unat (lane1 va) < 2 ^ 56"
      and vaT: "unat (lane0 va) + 2 ^ 64 * unat (lane1 va) = le_val (take 15 (drop i (mem a)))"
      using get_15_bytes_lanes [of i a] True by blast
    obtain vb where gb: "get_15_bytes__of_big_integer b i = Some vb"
      and vb1: "unat (lane1 vb) < 2 ^ 56"
      and vbT: "unat (lane0 vb) + 2 ^ 64 * unat (lane1 vb) = le_val (take 15 (drop i (mem b)))"
      using get_15_bytes_lanes [of i b] True by blast
    define T where "T = int (le_val (take 15 (drop i (mem a))))
        - int (le_val (take 15 (drop i (mem b)))) - int (b2n c)"
    obtain r c' where step: "big_integer_subtraction_simd_step15 va vb c = (r, c')"
      by (cases "big_integer_subtraction_simd_step15 va vb c")
    have ia': "uint (lane0 va) + 2 ^ 64 * uint (lane1 va) = int (le_val (take 15 (drop i (mem a))))"
      unfolding vaT [symmetric] by simp
    have ib': "uint (lane0 vb) + 2 ^ 64 * uint (lane1 vb) = int (le_val (take 15 (drop i (mem b))))"
      unfolding vbT [symmetric] by simp
    have spec: "(uint (lane0 r) + 2 ^ 64 * uint (lane1 r)) mod 2 ^ 120 = T mod 2 ^ 120
        \<and> c' = (T < 0)"
      by (rule big_integer_subtraction_simd_step15_spec [OF va1 vb1 _ step])
         (simp only: T_def ia' ib')
    define V where "V = unat (lane0 r) + 2 ^ 64 * unat (lane1 r)"
    have iV: "int V = uint (lane0 r) + 2 ^ 64 * uint (lane1 r)" by (simp add: V_def)
    have Vm: "int V mod 256 ^ 15 = T mod 256 ^ 15"
      using spec unfolding iV by simp
    define a' where "a' = a\<lparr>mem := take i (mem a) @ le_bytes 15 V @ drop (i + 15) (mem a)\<rparr>"
    have r0b: "unat (lane0 r) < 2 ^ 64"
      using unsigned_less [of "lane0 r", where ?'a = nat] by simp
    have sa: "set_15_bytes__of_big_integer a i r = Some a'"
      using True le_bytes_lanes [OF r0b, of "unat (lane1 r)"]
      by (simp add: set_15_bytes__of_big_integer_def a'_def V_def)
    have c'_iff: "c' = (T < 0)" using spec by simp
    have len': "i + 15 \<le> big_length a'" using ia by (simp add: a'_def big_length_def)
    have IH: "big_integer_subtraction_simd_loop15 a' b (i + 15) c' =
       Some (a'\<lparr>mem := take (i + 15) (mem a')
                  @ le_bytes_int (big_length a' - (i + 15)) (sub_diff a' b (i + 15) c')\<rparr>,
          sub_diff a' b (i + 15) c' < 0)"
      by (rule "1.IH" [OF True ga gb step [symmetric] refl sa len'])
    have unfold: "big_integer_subtraction_simd_loop15 a b i c =
        big_integer_subtraction_simd_loop15 a' b (i + 15) c'"
      using True
      by (subst big_integer_subtraction_simd_loop15.simps) (simp add: ga gb sa step)
    show ?thesis
      unfolding unfold IH
      using sub_chunk_step [OF ia T_def Vm a'_def c'_iff] by simp
  qed
qed

lemma big_integer_subtraction_sisd_eq:
  "big_integer_subtraction_sisd a b =
     a\<lparr>mem := le_bytes_int (big_length a)
                 (int (le_val (mem a)) - int (le_val (take (big_length a) (mem b))))\<rparr>"
  by (simp add: big_integer_subtraction_sisd_def big_integer_subtraction_byte_loop_eq
        sub_diff_def b2n_def)

text \<open>The SIMD subtraction writes what the byte-wise subtraction writes.\<close>

lemma big_integer_subtraction_simd_eq_sisd:
  "big_integer_subtraction_simd a b = Some (big_integer_subtraction_sisd a b)"
  by (simp add: big_integer_subtraction_simd_def big_integer_subtraction_simd_loop15_eq
        big_integer_subtraction_sisd_def big_integer_subtraction_byte_loop_eq)

subsection \<open>Facts about copies\<close>

lemma set_zero_loop_eq:
  "i \<le> big_length v \<Longrightarrow>
   set_zero_loop v i = Some (v\<lparr>mem := take i (mem v) @ replicate (big_length v - i) 0\<rparr>)"
proof (induction v i rule: set_zero_loop.induct)
  case (1 v i)
  show ?case
  proof (cases "i < big_length v")
    case False
    then have "i = big_length v" using "1.prems" by simp
    then show ?thesis
      by (subst set_zero_loop.simps) (simp add: big_length_def)
  next
    case True
    define v' where "v' = v\<lparr>mem := (mem v)[i := 0]\<rparr>"
    have s: "set_byte_value_of_big_integer v i 0 = Some v'"
      using True by (simp add: set_byte_value_of_big_integer_def v'_def)
    have len': "big_length v' = big_length v" by (simp add: v'_def big_length_def)
    have IH: "set_zero_loop v' (i + 1)
        = Some (v'\<lparr>mem := take (i + 1) (mem v') @ replicate (big_length v' - (i + 1)) 0\<rparr>)"
      by (rule "1.IH" [OF True s]) (use True len' in simp)
    have tk: "take (i + 1) (mem v') = take i (mem v) @ [0]"
      using True by (simp add: v'_def big_length_def take_Suc_conv_app_nth)
    have rp: "replicate (big_length v - i) (0 :: uint8_t) = 0 # replicate (big_length v - (i + 1)) 0"
      using True by (cases "big_length v - i") simp_all
    have "set_zero_loop v i = set_zero_loop v' (i + 1)"
      using True by (subst set_zero_loop.simps) (simp add: s)
    then show ?thesis unfolding IH tk rp len' by (simp add: v'_def)
  qed
qed

lemma set_zero_eq: "set_zero v = Some (v\<lparr>sign := False, mem := replicate (big_length v) 0\<rparr>)"
  by (simp add: set_zero_def set_zero_loop_eq)

lemma copy_big_integer_value_into_another_eq:
  "copy_big_integer_value_into_another source destination =
     Some (destination\<lparr>sign := sign source,
            mem := take (big_length destination) (mem source)
                   @ replicate (big_length destination - big_length source) 0\<rparr>)"
  by (simp add: copy_big_integer_value_into_another_def set_zero_eq big_length_def min_def)

lemma big_length_addition_sisd [simp]:
  "big_length (big_integer_addition_sisd a b) = big_length a"
  by (simp add: big_integer_addition_sisd_eq big_length_def)

lemma big_length_subtraction_sisd [simp]:
  "big_length (big_integer_subtraction_sisd a b) = big_length a"
  by (simp add: big_integer_subtraction_sisd_eq big_length_def le_bytes_int_def)

lemma sign_addition_sisd [simp]: "sign (big_integer_addition_sisd a b) = sign a"
  by (simp add: big_integer_addition_sisd_eq)

lemma sign_subtraction_sisd [simp]: "sign (big_integer_subtraction_sisd a b) = sign a"
  by (simp add: big_integer_subtraction_sisd_eq)

lemma positive_big_integer_is_greater_than_simd:
  "positive_big_integer_is_greater_than a b simd = positive_big_integer_is_greater_than a b False"
  by (simp add: positive_big_integer_is_greater_than_def big_integer_is_zero_eq)

subsection \<open>The second operand of addition and subtraction\<close>

lemma restore_sign: "sign b \<Longrightarrow> b\<lparr>sign := False\<rparr>\<lparr>sign := True\<rparr> = b"
  by simp

lemma add_sub_frame:
  "(\<forall>a' b'. big_integer_addition a b simd = Some (a', b')
       \<longrightarrow> b' = b \<and> big_length a' = big_length a)"
  "(\<forall>a' b'. big_integer_subtraction a b simd = Some (a', b')
       \<longrightarrow> b' = b \<and> big_length a' = big_length a)"
proof (induction a b simd and a b simd rule: big_integer_addition_big_integer_subtraction.induct)
  case (1 a b simd)
  show ?case
  proof (intro allI impI)
    fix a' b'
    assume r: "big_integer_addition a b simd = Some (a', b')"
    consider (np) "sign a" "\<not> sign b" | (pn) "\<not> sign a" "sign b" | (same) "sign a = sign b"
      by blast
    then show "b' = b \<and> big_length a' = big_length a"
    proof cases
      case np
      from r np obtain a1 b1 where
        s: "big_integer_subtraction (a\<lparr>sign := False\<rparr>) b simd = Some (a1, b1)"
        and e: "a' = a1\<lparr>sign := \<not> sign a1\<rparr>" "b' = b1"
        by (subst (asm) big_integer_addition.simps)
           (auto simp: Let_def split: Option.bind_splits prod.splits)
      from "1.IH"(1) [OF refl refl] np s have "b1 = b \<and> big_length a1 = big_length a"
        by (simp add: big_length_def)
      then show ?thesis using e by (simp add: big_length_def)
    next
      case pn
      from r pn obtain a1 b1 where
        s: "big_integer_subtraction a (b\<lparr>sign := False\<rparr>) simd = Some (a1, b1)"
        and e: "a' = a1" "b' = b1\<lparr>sign := True\<rparr>"
        by (subst (asm) big_integer_addition.simps)
           (auto simp: Let_def split: Option.bind_splits prod.splits)
      from "1.IH"(2) [OF refl refl] pn s
      have "b1 = b\<lparr>sign := False\<rparr> \<and> big_length a1 = big_length a"
        by simp
      then show ?thesis using e pn by simp
    next
      case same
      then have "a' = big_integer_addition_sisd a b \<and> b' = b"
        using r
        by (subst (asm) big_integer_addition.simps)
           (auto simp: Let_def big_integer_addition_simd_eq_sisd split: if_splits)
      then show ?thesis by simp
    qed
  qed
next
  case (2 a b simd)
  show ?case
  proof (intro allI impI)
    fix a' b'
    assume r: "big_integer_subtraction a b simd = Some (a', b')"
    consider (pn) "\<not> sign a" "sign b" | (np) "sign a" "\<not> sign b" | (nn) "sign a" "sign b"
      | (pp) "\<not> sign a" "\<not> sign b"
      by blast
    then show "b' = b \<and> big_length a' = big_length a"
    proof cases
      case pn
      from r pn obtain a1 b1 where
        s: "big_integer_addition a (b\<lparr>sign := False\<rparr>) simd = Some (a1, b1)"
        and e: "a' = a1" "b' = b1\<lparr>sign := True\<rparr>"
        by (subst (asm) big_integer_subtraction.simps)
           (auto simp: Let_def split: Option.bind_splits prod.splits)
      from "2.IH"(1) [OF refl refl] pn s
      have "b1 = b\<lparr>sign := False\<rparr> \<and> big_length a1 = big_length a"
        by simp
      then show ?thesis using e pn by simp
    next
      case np
      from r np obtain a1 b1 where
        s: "big_integer_addition (a\<lparr>sign := False\<rparr>) b simd = Some (a1, b1)"
        and e: "a' = negate_big_integer a1" "b' = b1"
        by (subst (asm) big_integer_subtraction.simps)
           (auto simp: Let_def split: Option.bind_splits prod.splits)
      from "2.IH"(2) [OF refl refl] np s have "b1 = b \<and> big_length a1 = big_length a"
        by (simp add: big_length_def)
      then show ?thesis using e by (simp add: big_length_def negate_big_integer_def)
    next
      case nn
      from r nn obtain b_copy b_copy' a1 where
        c: "clone_big_integer_add_size b
              (max 0 (size_t_sub (big_length (a\<lparr>sign := False\<rparr>)) (big_length b))) = Some b_copy"
        and s: "big_integer_subtraction (b_copy\<lparr>sign := False\<rparr>) (a\<lparr>sign := False\<rparr>) simd
              = Some (b_copy', a1)"
        and e: "copy_big_integer_value_into_another b_copy' a1 = Some a'" "b' = b"
        by (subst (asm) big_integer_subtraction.simps)
           (auto simp: Let_def split: Option.bind_splits prod.splits)
      from "2.IH"(3) [OF refl refl _ _ _ refl c refl] nn s
      have "a1 = a\<lparr>sign := False\<rparr>" by simp
      then show ?thesis using e
        by (auto simp add: copy_big_integer_value_into_another_eq big_length_def)
    next
      case pp
      have g: "positive_big_integer_is_greater_than b a simd
                 = Some (le_val (mem a) < le_val (mem b))"
        using pp by (simp add: positive_big_integer_is_greater_than_eq)
      show ?thesis
      proof (cases "le_val (mem a) < le_val (mem b)")
        case False
        then have "a' = big_integer_subtraction_sisd a b \<and> b' = b"
          using r pp g
          by (subst (asm) big_integer_subtraction.simps)
             (auto simp: Let_def big_integer_subtraction_simd_eq_sisd split: if_splits)
        then show ?thesis by simp
      next
        case True
        from r pp g True obtain b1 a1 where
          s: "big_integer_subtraction b a simd = Some (b1, a1)"
          and e: "copy_big_integer_value_into_another (negate_big_integer b1) a1 = Some a'"
            "copy_big_integer_value_into_another (clone_big_integer b) (negate_big_integer b1)
               = Some b'"
          by (subst (asm) big_integer_subtraction.simps)
             (auto simp: Let_def split: Option.bind_splits prod.splits)
        from "2.IH"(4) [OF refl refl _ _ _ g _ refl] pp True s
        have "a1 = a \<and> big_length b1 = big_length b" by simp
        then show ?thesis using e
          by (auto simp add: copy_big_integer_value_into_another_eq big_length_def
                negate_big_integer_def clone_big_integer_def)
      qed
    qed
  qed
qed

subsection \<open>Left shifts\<close>

text \<open>
  \<open>big_integer_shl_bitwise_0_to_7\<close>: \<open>bit_count\<close> is documented to lie in \<open>[0; 7]\<close>.
  The byte loop is shared by the SISD function (from index 0 with carry 0) and by the tail of
  the SIMD function.
\<close>

function big_integer_shl_bitwise_byte_loop ::
  "big_integer \<Rightarrow> nat \<Rightarrow> nat \<Rightarrow> uint8_t \<Rightarrow> big_integer option" where
  "big_integer_shl_bitwise_byte_loop v bit_count i carry =
     (if i < big_length v then
        do { byte \<leftarrow> get_byte_value_of_big_integer v i;
             let shifted = push_bit bit_count (ucast byte :: uint16_t);
             let shifted = shifted OR ucast carry;
             let lower_byte = (ucast shifted :: uint8_t);
             v' \<leftarrow> set_byte_value_of_big_integer v i lower_byte;
             big_integer_shl_bitwise_byte_loop v' bit_count (i + 1) (ucast (drop_bit 8 shifted)) }
      else Some v)"
  by pat_completeness auto
termination
  by (relation "measure (\<lambda>(v, n, i, c). big_length v - i)")
     (auto simp: set_byte_value_of_big_integer_def big_length_def split: if_splits)

declare big_integer_shl_bitwise_byte_loop.simps [simp del]

definition big_integer_shl_bitwise_0_to_7__sisd :: "big_integer \<Rightarrow> nat \<Rightarrow> big_integer option" where
  "big_integer_shl_bitwise_0_to_7__sisd v bit_count =
     big_integer_shl_bitwise_byte_loop v bit_count 0 0"

function big_integer_shl_bitwise_simd56_loop ::
  "big_integer \<Rightarrow> nat \<Rightarrow> nat \<Rightarrow> uint8_t \<Rightarrow> big_integer option" where
  "big_integer_shl_bitwise_simd56_loop v bit_count i carry =
     (if i + 6 < big_length v then
        do { value7 \<leftarrow> get_7_bytes__of_big_integer v i;
             let shifted = push_bit bit_count value7;
             let shifted = shifted OR ucast carry;
             let lower7 = shifted AND 0x00FFFFFFFFFFFFFF;
             v' \<leftarrow> set_7_bytes__of_big_integer v i lower7;
             big_integer_shl_bitwise_simd56_loop v' bit_count (i + 7) (ucast (drop_bit 56 shifted)) }
      else big_integer_shl_bitwise_byte_loop v bit_count i carry)"
  by pat_completeness auto
termination
  by (relation "measure (\<lambda>(v, n, i, c). big_length v - i)")
     (auto simp: set_7_bytes__of_big_integer_def big_length_def split: if_splits)

declare big_integer_shl_bitwise_simd56_loop.simps [simp del]

definition big_integer_shl_bitwise_0_to_7__simd56 :: "big_integer \<Rightarrow> nat \<Rightarrow> big_integer option" where
  "big_integer_shl_bitwise_0_to_7__simd56 v bit_count =
     big_integer_shl_bitwise_simd56_loop v bit_count 0 0"

definition big_integer_shl_bitwise_0_to_7 ::
  "big_integer \<Rightarrow> nat \<Rightarrow> bool \<Rightarrow> big_integer option" where
  "big_integer_shl_bitwise_0_to_7 v bit_count simd =
     (if simd then big_integer_shl_bitwise_0_to_7__simd56 v bit_count
      else big_integer_shl_bitwise_0_to_7__sisd v bit_count)"

text \<open>
  \<open>big_integer_shl_byte_wise\<close>: the first loop copies byte \<open>i\<close> to \<open>i + count\<close> for
  \<open>i = length - count - 1\<close> down to 0 (the argument of the model counts the bytes still to
  copy); the second loop clears the low \<open>count\<close> bytes.
\<close>

fun big_integer_shl_byte_wise_copy_loop ::
  "big_integer \<Rightarrow> nat \<Rightarrow> nat \<Rightarrow> big_integer option" where
  "big_integer_shl_byte_wise_copy_loop v count 0 = Some v"
| "big_integer_shl_byte_wise_copy_loop v count (Suc i) =
     do { x \<leftarrow> get_byte_value_of_big_integer v i;
          v' \<leftarrow> set_byte_value_of_big_integer v (i + count) x;
          big_integer_shl_byte_wise_copy_loop v' count i }"

function big_integer_shl_byte_wise_zero_loop ::
  "big_integer \<Rightarrow> nat \<Rightarrow> nat \<Rightarrow> big_integer option" where
  "big_integer_shl_byte_wise_zero_loop v count i =
     (if i < count then
        do { v' \<leftarrow> set_byte_value_of_big_integer v i 0;
             big_integer_shl_byte_wise_zero_loop v' count (i + 1) }
      else Some v)"
  by pat_completeness auto
termination
  by (relation "measure (\<lambda>(v, count, i). count - i)") auto

declare big_integer_shl_byte_wise_zero_loop.simps [simp del]

definition big_integer_shl_byte_wise :: "big_integer \<Rightarrow> nat \<Rightarrow> big_integer option" where
  "big_integer_shl_byte_wise v count =
     do { v1 \<leftarrow> big_integer_shl_byte_wise_copy_loop v count (big_length v - count);
          big_integer_shl_byte_wise_zero_loop v1 count 0 }"

subsection \<open>Multiplication\<close>

text \<open>
  \<open>big_integer_multiply_uint8\<close> writes \<open>result\<close> and \<open>temp\<close> and leaves \<open>value\<close> alone;
  the model returns the new \<open>result\<close> and \<open>temp\<close>.
\<close>

function big_integer_multiply_uint8_loop ::
  "uint8_t \<Rightarrow> bool \<Rightarrow> nat \<Rightarrow> big_integer \<Rightarrow> big_integer \<Rightarrow> nat
     \<Rightarrow> (big_integer \<times> big_integer) option" where
  "big_integer_multiply_uint8_loop mul simd i result temp to_shift =
     (if i < 8 then
        if drop_bit i mul AND 1 = 1 then
          do { temp1 \<leftarrow> (if i \<noteq> 0 then big_integer_shl_bitwise_0_to_7 temp (1 + to_shift) simd
                          else Some temp);
               let to_shift1 = (if i \<noteq> 0 then 0 else to_shift);
               (result1, temp2) \<leftarrow> big_integer_addition result temp1 simd;
               big_integer_multiply_uint8_loop mul simd (i + 1) result1 temp2 to_shift1 }
        else big_integer_multiply_uint8_loop mul simd (i + 1) result temp
               (if i \<noteq> 0 then to_shift + 1 else to_shift)
      else Some (result, temp))"
  by pat_completeness auto
termination
  by (relation "measure (\<lambda>(mul, simd, i, r, t, s). 8 - i)") auto

declare big_integer_multiply_uint8_loop.simps [simp del]

definition big_integer_multiply_uint8 ::
  "big_integer \<Rightarrow> uint8_t \<Rightarrow> big_integer \<Rightarrow> big_integer \<Rightarrow> bool
     \<Rightarrow> (big_integer \<times> big_integer) option" where
  "big_integer_multiply_uint8 v mul result temp simd =
     do { result0 \<leftarrow> set_zero result;
          temp0 \<leftarrow> copy_big_integer_value_into_another v temp;
          big_integer_multiply_uint8_loop mul simd 0 result0 temp0 0 }"

text \<open>
  \<open>big_integer_multiplication\<close>: the loop state is \<open>res\<close>, \<open>pp\<close> and \<open>temp\<close>; the model
  returns the new \<open>res\<close>.
\<close>

function big_integer_multiplication_loop ::
  "big_integer \<Rightarrow> big_integer \<Rightarrow> bool \<Rightarrow> nat \<Rightarrow> big_integer \<Rightarrow> big_integer \<Rightarrow> big_integer
     \<Rightarrow> big_integer option" where
  "big_integer_multiplication_loop a b simd i res pp temp =
     (if i < big_length b then
        do { byte \<leftarrow> get_byte_value_of_big_integer b i;
             if byte = 0 then big_integer_multiplication_loop a b simd (i + 1) res pp temp
             else do {
               (pp1, temp1) \<leftarrow> big_integer_multiply_uint8 a byte pp temp simd;
               pp2 \<leftarrow> big_integer_shl_byte_wise pp1 i;
               (res1, pp3) \<leftarrow> big_integer_addition res pp2 simd;
               big_integer_multiplication_loop a b simd (i + 1) res1 pp3 temp1 } }
      else Some res)"
  by pat_completeness auto
termination
  by (relation "measure (\<lambda>(a, b, simd, i, r, p, t). big_length b - i)") auto

declare big_integer_multiplication_loop.simps [simp del]

definition big_integer_multiplication ::
  "big_integer \<Rightarrow> big_integer \<Rightarrow> big_integer \<Rightarrow> bool \<Rightarrow> big_integer option" where
  "big_integer_multiplication a b res simd =
     do { let pp = create_big_integer (big_length res) False;
          let temp = create_big_integer (big_length a + 1) False;
          res1 \<leftarrow> big_integer_multiplication_loop a b simd 0 res pp temp;
          Some (res1\<lparr>sign := (sign a \<and> \<not> sign b) \<or> (sign b \<and> \<not> sign a)\<rparr>) }"

text \<open>An \<open>int16_t\<close> is a 16-bit word read through \<open>sint\<close>; \<open>abs\<close> works on the promoted
  \<open>int\<close> and the \<open>uint8_t\<close> parameter keeps its low byte.\<close>

definition abs_to_uint8 :: "int16_t \<Rightarrow> uint8_t" where
  "abs_to_uint8 m = of_int \<bar>sint m\<bar>"

definition big_integer_multiply_int_neg256_to_256 ::
  "big_integer \<Rightarrow> int16_t \<Rightarrow> big_integer \<Rightarrow> big_integer \<Rightarrow> bool
     \<Rightarrow> (big_integer \<times> big_integer) option" where
  "big_integer_multiply_int_neg256_to_256 v mul result temp simd =
     do { (result1, temp1) \<leftarrow> big_integer_multiply_uint8 v (abs_to_uint8 mul) result temp simd;
          Some (result1\<lparr>sign := (sign v \<and> sint mul > 0) \<or> (\<not> sign v \<and> sint mul < 0)\<rparr>,
                temp1) }"

subsection \<open>Division by a small integer\<close>

definition set_bit_value_of_big_integer ::
  "big_integer \<Rightarrow> nat \<Rightarrow> bool \<Rightarrow> big_integer option" where
  "set_bit_value_of_big_integer big_int bit_index v =
     do { byte \<leftarrow> get_byte_value_of_big_integer big_int (bit_index div 8);
          let i = bit_index mod 8;
          let byte = (if v then byte OR push_bit i 1 else byte AND NOT (push_bit i 1));
          set_byte_value_of_big_integer big_int (bit_index div 8) byte }"

text \<open>
  The state of the division loop: the remainder, the quotient and \<open>divisor_big\<close>.  One step
  is the body of the inner loop at byte \<open>i\<close> and bit \<open>j\<close> of \<open>value\<close>.
\<close>

definition big_integer_division_step ::
  "big_integer \<Rightarrow> uint8_t \<Rightarrow> bool \<Rightarrow> nat \<Rightarrow> nat
     \<Rightarrow> big_integer \<times> big_integer \<times> big_integer
     \<Rightarrow> (big_integer \<times> big_integer \<times> big_integer) option" where
  "big_integer_division_step v dv simd i j st =
     (case st of (remainder, quot, divisor_big) \<Rightarrow>
      do { remainder \<leftarrow> big_integer_shl_bitwise_0_to_7 remainder 1 simd;
           vbyte \<leftarrow> get_byte_value_of_big_integer v i;
           let bit_i = (drop_bit j vbyte AND 1 = 1);
           r0 \<leftarrow> get_byte_value_of_big_integer remainder 0;
           remainder \<leftarrow> set_byte_value_of_big_integer remainder 0 (r0 OR bool_to_word bit_i);
           b \<leftarrow> big_integer_greater_equal_int16 remainder (ucast dv) simd;
           if b then
             do { (remainder, divisor_big) \<leftarrow> big_integer_subtraction remainder divisor_big simd;
                  quot \<leftarrow> set_bit_value_of_big_integer quot (i * 8 + j) True;
                  Some (remainder, quot, divisor_big) }
           else Some (remainder, quot, divisor_big) })"

text \<open>The inner loop runs \<open>j\<close> from 7 down to 0, the outer loop \<open>i\<close> from
  \<open>length - 1\<close> down to 0; the last argument counts the iterations still to do.\<close>

fun big_integer_division_bit_loop ::
  "big_integer \<Rightarrow> uint8_t \<Rightarrow> bool \<Rightarrow> nat \<Rightarrow> nat
     \<Rightarrow> big_integer \<times> big_integer \<times> big_integer
     \<Rightarrow> (big_integer \<times> big_integer \<times> big_integer) option" where
  "big_integer_division_bit_loop v dv simd i 0 st = Some st"
| "big_integer_division_bit_loop v dv simd i (Suc j) st =
     do { st' \<leftarrow> big_integer_division_step v dv simd i j st;
          big_integer_division_bit_loop v dv simd i j st' }"

fun big_integer_division_byte_loop ::
  "big_integer \<Rightarrow> uint8_t \<Rightarrow> bool \<Rightarrow> nat
     \<Rightarrow> big_integer \<times> big_integer \<times> big_integer
     \<Rightarrow> (big_integer \<times> big_integer \<times> big_integer) option" where
  "big_integer_division_byte_loop v dv simd 0 st = Some st"
| "big_integer_division_byte_loop v dv simd (Suc i) st =
     do { st' \<leftarrow> big_integer_division_bit_loop v dv simd i 8 st;
          big_integer_division_byte_loop v dv simd i st' }"

text \<open>
  \<open>big_integer_division_int9_t\<close> returns the remainder and leaves the quotient in \<open>value\<close>;
  the model returns the new \<open>value\<close>, the two scratch integers as the call leaves them, and
  the remainder.
\<close>

definition big_integer_division_int9_t ::
  "big_integer \<Rightarrow> int16_t \<Rightarrow> big_integer \<Rightarrow> big_integer \<Rightarrow> bool
     \<Rightarrow> (big_integer \<times> big_integer \<times> big_integer \<times> int16_t) option" where
  "big_integer_division_int9_t v divisor temp_value temp_value2 simd =
     (if divisor = 0 then None
      else do {
        let dv = abs_to_uint8 divisor;
        let value_sign = sign v;
        let v = v\<lparr>sign := False\<rparr>;
        quot \<leftarrow> set_zero temp_value;
        remainder \<leftarrow> set_zero temp_value2;
        let divisor_big = create_big_integer 2 False;
        divisor_big \<leftarrow> set_byte_value_of_big_integer divisor_big 0 (abs_to_uint8 divisor);
        (remainder, quot, divisor_big) \<leftarrow>
           big_integer_division_byte_loop v dv simd (big_length v) (remainder, quot, divisor_big);
        v \<leftarrow> copy_big_integer_value_into_another quot v;
        r0 \<leftarrow> get_byte_value_of_big_integer remainder 0;
        let remainder16 = (ucast r0 :: int16_t);
        let v = (if (value_sign \<and> sint divisor > 0) \<or> (\<not> value_sign \<and> sint divisor < 0)
                 then v\<lparr>sign := True\<rparr> else v);
        let remainder16 = (if value_sign then remainder16 * (- 1) else remainder16);
        Some (v, quot, remainder, remainder16) })"

section \<open>Radix conversion and the entry point (impl_binary_conversion.c)\<close>

subsection \<open>Sizes\<close>

definition binary_logarithm_8bit_abs_ceil :: "int \<Rightarrow> int" where
  "binary_logarithm_8bit_abs_ceil v =
     (if \<bar>v\<bar> > 128 then 8 else if \<bar>v\<bar> > 64 then 7 else if \<bar>v\<bar> > 32 then 6
      else if \<bar>v\<bar> > 16 then 5 else if \<bar>v\<bar> > 8 then 4 else if \<bar>v\<bar> > 4 then 3
      else if \<bar>v\<bar> > 2 then 2 else if \<bar>v\<bar> > 1 then 1 else - 1)"

text \<open>Division of two C \<open>int\<close>s truncates towards zero.\<close>

definition c_int_div :: "int \<Rightarrow> int \<Rightarrow> int" where
  "c_int_div a b = sgn a * sgn b * (\<bar>a\<bar> div \<bar>b\<bar>)"

text \<open>
  \<open>get_big_integer_min_size_exponentiation\<close> computes in \<open>int\<close> and returns a
  \<open>size_t\<close>; for \<open>|base| \<ge> 2\<close> the value is positive, and only then is the result
  meaningful.
\<close>

definition get_big_integer_min_size_exponentiation :: "int \<Rightarrow> nat \<Rightarrow> nat" where
  "get_big_integer_min_size_exponentiation base exponent =
     nat (c_int_div (binary_logarithm_8bit_abs_ceil base * int exponent) 8 + 1)"

definition get_big_integer_min_size :: "int \<Rightarrow> nat \<Rightarrow> nat" where
  "get_big_integer_min_size base len = get_big_integer_min_size_exponentiation base len"

subsection \<open>Parsing\<close>

text \<open>The lookup table: 256 entries, zero except at the characters of the alphabet.\<close>

definition generate_lut :: "string \<Rightarrow> char \<Rightarrow> uint8_t" where
  "generate_lut alph = fold (\<lambda>i lut. lut(alph ! i := of_nat i)) [0..<length alph] (\<lambda>_. 0)"

definition get_char_value :: "char \<Rightarrow> (char \<Rightarrow> uint8_t) \<Rightarrow> uint8_t" where
  "get_char_value c lookup = lookup c"

text \<open>
  The state of the parsing loop: \<open>z1_binary\<close>, \<open>z2_binary\<close>, the two digit scratch integers,
  \<open>current_weight\<close>, \<open>temp\<close> and \<open>temp2\<close>.
\<close>

record parse_state =
  ps_z1_binary :: big_integer
  ps_z2_binary :: big_integer
  ps_z1_temp :: big_integer
  ps_z2_temp :: big_integer
  ps_current_weight :: big_integer
  ps_temp :: big_integer
  ps_temp2 :: big_integer

definition convert_numbers_step ::
  "int \<Rightarrow> (char \<Rightarrow> uint8_t) \<Rightarrow> string \<Rightarrow> string \<Rightarrow> bool \<Rightarrow> nat \<Rightarrow> parse_state
     \<Rightarrow> parse_state option" where
  "convert_numbers_step base lookup z1 z2 simd i st =
     do { st \<leftarrow> (if i < length z1 then
                   do { let char_index = length z1 - 1 - i;
                        let digit_value = get_char_value (z1 ! char_index) lookup;
                        (z1_temp, temp2) \<leftarrow> big_integer_multiply_uint8 (ps_current_weight st)
                             digit_value (ps_z1_temp st) (ps_temp2 st) simd;
                        (z1_binary, z1_temp) \<leftarrow> big_integer_addition (ps_z1_binary st) z1_temp simd;
                        Some (st\<lparr>ps_z1_binary := z1_binary, ps_z1_temp := z1_temp,
                                 ps_temp2 := temp2\<rparr>) }
                 else Some st);
          st \<leftarrow> (if i < length z2 then
                   do { let char_index = length z2 - 1 - i;
                        let digit_value = get_char_value (z2 ! char_index) lookup;
                        (z2_temp, temp2) \<leftarrow> big_integer_multiply_uint8 (ps_current_weight st)
                             digit_value (ps_z2_temp st) (ps_temp2 st) simd;
                        (z2_binary, z2_temp) \<leftarrow> big_integer_addition (ps_z2_binary st) z2_temp simd;
                        Some (st\<lparr>ps_z2_binary := z2_binary, ps_z2_temp := z2_temp,
                                 ps_temp2 := temp2\<rparr>) }
                 else Some st);
          (temp, temp2) \<leftarrow> big_integer_multiply_int_neg256_to_256 (ps_current_weight st)
                (of_int base) (ps_temp st) (ps_temp2 st) simd;
          Some (st\<lparr>ps_temp := ps_current_weight st, ps_current_weight := temp, ps_temp2 := temp2\<rparr>) }"

function convert_numbers_loop ::
  "int \<Rightarrow> (char \<Rightarrow> uint8_t) \<Rightarrow> string \<Rightarrow> string \<Rightarrow> bool \<Rightarrow> nat \<Rightarrow> nat \<Rightarrow> parse_state
     \<Rightarrow> parse_state option" where
  "convert_numbers_loop base lookup z1 z2 simd max_length i st =
     (if i < max_length then
        do { st' \<leftarrow> convert_numbers_step base lookup z1 z2 simd i st;
             convert_numbers_loop base lookup z1 z2 simd max_length (i + 1) st' }
      else Some st)"
  by pat_completeness auto
termination
  by (relation "measure (\<lambda>(base, lookup, z1, z2, simd, max_length, i, st). max_length - i)") auto

declare convert_numbers_loop.simps [simp del]

definition convert_numbers_from_any_base_into_binary ::
  "int \<Rightarrow> string \<Rightarrow> string \<Rightarrow> string \<Rightarrow> big_integer \<Rightarrow> big_integer \<Rightarrow> bool
     \<Rightarrow> (big_integer \<times> big_integer) option" where
  "convert_numbers_from_any_base_into_binary base alph z1 z2 z1_binary z2_binary simd =
     do { let lookup = generate_lut alph;
          let z1_temp = create_big_integer (big_length z1_binary) False;
          let z2_temp = create_big_integer (big_length z2_binary) False;
          let max_length = max (length z1) (length z2);
          let current_weight = create_big_integer
                (get_big_integer_min_size_exponentiation base max_length) False;
          let temp = create_big_integer (big_length current_weight) False;
          let temp2 = create_big_integer (big_length current_weight) False;
          current_weight \<leftarrow> set_byte_value_of_big_integer current_weight 0 1;
          st \<leftarrow> convert_numbers_loop base lookup z1 z2 simd max_length 0
                 \<lparr>ps_z1_binary = z1_binary, ps_z2_binary = z2_binary, ps_z1_temp = z1_temp,
                  ps_z2_temp = z2_temp, ps_current_weight = current_weight, ps_temp = temp,
                  ps_temp2 = temp2\<rparr>;
          Some (ps_z1_binary st, ps_z2_binary st) }"

subsection \<open>Projection to a positive base: Double Dabble\<close>

definition double_dabble_adjust ::
  "uint8_t \<Rightarrow> uint8_t \<Rightarrow> big_integer \<Rightarrow> nat \<Rightarrow> big_integer option" where
  "double_dabble_adjust conversion_trigger carry_add calc_buffer j =
     do { byte \<leftarrow> get_byte_value_of_big_integer calc_buffer j;
          if byte \<ge> conversion_trigger then
            do { calc_buffer \<leftarrow> set_byte_value_of_big_integer calc_buffer j (byte + carry_add);
                 nxt \<leftarrow> get_byte_value_of_big_integer calc_buffer (j + 1);
                 set_byte_value_of_big_integer calc_buffer (j + 1) (nxt + 1) }
          else Some calc_buffer }"

lemma set_byte_length:
  "set_byte_value_of_big_integer v i x = Some v' \<Longrightarrow> big_length v' = big_length v"
  by (auto simp: set_byte_value_of_big_integer_def big_length_def split: if_splits)

lemma double_dabble_adjust_length:
  "double_dabble_adjust conversion_trigger carry_add calc_buffer j = Some calc_buffer'
     \<Longrightarrow> big_length calc_buffer' = big_length calc_buffer"
  by (auto simp: double_dabble_adjust_def split: Option.bind_splits if_splits
        dest!: set_byte_length)

function double_dabble_adjust_loop ::
  "uint8_t \<Rightarrow> uint8_t \<Rightarrow> big_integer \<Rightarrow> nat \<Rightarrow> big_integer option" where
  "double_dabble_adjust_loop conversion_trigger carry_add calc_buffer j =
     (if j < big_length calc_buffer then
        do { calc_buffer' \<leftarrow> double_dabble_adjust conversion_trigger carry_add calc_buffer j;
             double_dabble_adjust_loop conversion_trigger carry_add calc_buffer' (j + 1) }
      else Some calc_buffer)"
  by pat_completeness auto
termination
proof (relation "measure (\<lambda>(t, c, b, j). big_length b - j)", goal_cases)
  case 1
  show ?case by simp
next
  case (2 conversion_trigger carry_add calc_buffer j calc_buffer')
  then have "big_length calc_buffer' = big_length calc_buffer"
    using double_dabble_adjust_length by blast
  then show ?case using 2 by simp
qed

declare double_dabble_adjust_loop.simps [simp del]

text \<open>One iteration of the outer loop: shift, take over the top bit of the remaining value,
  shift the remaining value, adjust every byte.\<close>

definition double_dabble_iteration ::
  "uint8_t \<Rightarrow> uint8_t \<Rightarrow> bool \<Rightarrow> big_integer \<times> big_integer
     \<Rightarrow> (big_integer \<times> big_integer) option" where
  "double_dabble_iteration conversion_trigger carry_add simd st =
     (case st of (calc_buffer, remaining_value) \<Rightarrow>
      do { calc_buffer \<leftarrow> big_integer_shl_bitwise_0_to_7 calc_buffer 1 simd;
           most_significant_bit \<leftarrow> get_most_significant_bit remaining_value;
           c0 \<leftarrow> get_byte_value_of_big_integer calc_buffer 0;
           calc_buffer \<leftarrow> set_byte_value_of_big_integer calc_buffer 0
                           (c0 OR bool_to_word most_significant_bit);
           remaining_value \<leftarrow> big_integer_shl_bitwise_0_to_7 remaining_value 1 simd;
           calc_buffer \<leftarrow> double_dabble_adjust_loop conversion_trigger carry_add calc_buffer 0;
           Some (calc_buffer, remaining_value) })"

fun double_dabble_loop ::
  "uint8_t \<Rightarrow> uint8_t \<Rightarrow> bool \<Rightarrow> nat \<Rightarrow> big_integer \<times> big_integer
     \<Rightarrow> (big_integer \<times> big_integer) option" where
  "double_dabble_loop conversion_trigger carry_add simd 0 st = Some st"
| "double_dabble_loop conversion_trigger carry_add simd (Suc n) st =
     do { st' \<leftarrow> double_dabble_iteration conversion_trigger carry_add simd st;
          double_dabble_loop conversion_trigger carry_add simd n st' }"

text \<open>The index of the most significant nonzero byte, 0 when there is none; the argument
  counts the bytes still to look at, from the top.\<close>

fun calc_buffer_start_nonzero :: "big_integer \<Rightarrow> nat \<Rightarrow> nat option" where
  "calc_buffer_start_nonzero calc_buffer 0 = Some 0"
| "calc_buffer_start_nonzero calc_buffer (Suc i) =
     do { byte \<leftarrow> get_byte_value_of_big_integer calc_buffer i;
          if byte \<noteq> 0 then Some i else calc_buffer_start_nonzero calc_buffer i }"

text \<open>
  \<open>alph[i]\<close> on the NUL-terminated alphabet: the terminator is readable, anything beyond it
  is outside the string.
\<close>

definition alph_at :: "string \<Rightarrow> nat \<Rightarrow> char option" where
  "alph_at alph i =
     (if i < length alph then Some (alph ! i)
      else if i = length alph then Some (CHR 0x00) else None)"

text \<open>
  The digit loop writes \<open>buffer[output_buffer_index]\<close> for \<open>i\<close> from
  \<open>calc_buffer_start_nonzero\<close> down to 0 and stops early when the index reaches
  \<open>buffer_length\<close>.  The model collects the characters written from the starting index on and
  returns them with the final index.
\<close>

fun write_digits_loop ::
  "string \<Rightarrow> big_integer \<Rightarrow> nat \<Rightarrow> nat \<Rightarrow> nat \<Rightarrow> string \<Rightarrow> (string \<times> nat) option" where
  "write_digits_loop alph calc_buffer buffer_length 0 output_buffer_index written =
     Some (written, output_buffer_index)"
| "write_digits_loop alph calc_buffer buffer_length (Suc i) output_buffer_index written =
     (if output_buffer_index \<ge> buffer_length then Some (written, output_buffer_index)
      else do { byte \<leftarrow> get_byte_value_of_big_integer calc_buffer i;
                c \<leftarrow> alph_at alph (unat byte);
                write_digits_loop alph calc_buffer buffer_length i (output_buffer_index + 1)
                  (written @ [c]) })"

text \<open>The C string a buffer holds: the characters before the first NUL.\<close>

definition c_string :: "string \<Rightarrow> string" where
  "c_string buffer = takeWhile (\<lambda>c. c \<noteq> CHR 0x00) buffer"

definition convert_big_integer_to_positive_base ::
  "big_integer \<Rightarrow> int16_t \<Rightarrow> string \<Rightarrow> nat \<Rightarrow> bool \<Rightarrow> string option" where
  "convert_big_integer_to_positive_base v base alph buffer_length simd =
     do { let conversion_trigger = (ucast base :: uint8_t);
          let carry_add = (of_int (256 - sint base) :: uint8_t);
          let calc_buffer = create_big_integer buffer_length False;
          let remaining_value = clone_big_integer v;
          let value_length = big_length v;
          (calc_buffer, remaining_value) \<leftarrow>
             double_dabble_loop conversion_trigger carry_add simd (value_length * 8)
               (calc_buffer, remaining_value);
          start \<leftarrow> calc_buffer_start_nonzero calc_buffer (big_length calc_buffer);
          let output_buffer_index = (if sign v then 1 else 0);
          (written, output_buffer_index) \<leftarrow>
             write_digits_loop alph calc_buffer buffer_length (start + 1) output_buffer_index [];
          let buffer = (if sign v then CHR ''-'' # written else written);
          if output_buffer_index \<ge> buffer_length then None
          else Some (c_string buffer) }"

subsection \<open>Projection to a negative base: repeated division\<close>

text \<open>
  The \<open>while\<close> loop of the negative branch; \<open>written\<close> collects
  \<open>buffer[0..index]\<close>, least significant digit first.  Not returning is \<open>None\<close>.
\<close>

partial_function (option) convert_to_negative_base_loop ::
  "int16_t \<Rightarrow> string \<Rightarrow> bool \<Rightarrow> big_integer \<Rightarrow> big_integer \<Rightarrow> big_integer \<Rightarrow> string
     \<Rightarrow> string option" where
  "convert_to_negative_base_loop base alph simd v temp temp2 written =
     do { z \<leftarrow> big_integer_is_zero v simd;
          if z then Some written
          else do {
            r \<leftarrow> big_integer_division_int9_t v base temp temp2 simd;
            let v = fst r; let temp = fst (snd r); let temp2 = fst (snd (snd r));
            let remainder = sint (snd (snd (snd r)));
            let base_abs = (if sint base < 0 then - sint base else sint base);
            r2 \<leftarrow> (if remainder < 0
                    then do { v' \<leftarrow> big_integer_increment v; Some (remainder + base_abs, v') }
                    else Some (remainder, v));
            let remainder = fst r2; let v = snd r2;
            if remainder < 0 \<or> remainder \<ge> int (length alph) then None
            else convert_to_negative_base_loop base alph simd v temp temp2
                   (written @ [alph ! nat remainder]) } }"

declare convert_to_negative_base_loop.simps [code]

text \<open>The in-place reversal, with its index checks against \<open>buffer_length\<close>.\<close>

function reverse_buffer_loop :: "string \<Rightarrow> nat \<Rightarrow> nat \<Rightarrow> nat \<Rightarrow> string option" where
  "reverse_buffer_loop buffer buffer_length i j =
     (if i > j then
        if i \<ge> buffer_length \<or> j \<ge> buffer_length then None
        else if i < length buffer then
          reverse_buffer_loop (buffer[j := buffer ! i, i := buffer ! j]) buffer_length (i - 1) (j + 1)
        else None
      else Some buffer)"
  by pat_completeness auto
termination
  by (relation "measure (\<lambda>(b, n, i, j). i - j)") auto

declare reverse_buffer_loop.simps [simp del]

definition convert_big_integer_to_negative_base ::
  "big_integer \<Rightarrow> int16_t \<Rightarrow> string \<Rightarrow> nat \<Rightarrow> bool \<Rightarrow> string option" where
  "convert_big_integer_to_negative_base v base alph buffer_length simd =
     do { z \<leftarrow> big_integer_is_zero v simd;
          if z then do { c \<leftarrow> alph_at alph 0; Some (c_string [c]) }
          else do {
            let temp = create_big_integer (big_length v) False;
            let temp2 = create_big_integer (big_length v) False;
            written \<leftarrow> convert_to_negative_base_loop base alph simd v temp temp2 [];
            let index = length written - 1;
            buffer \<leftarrow> reverse_buffer_loop written buffer_length index 0;
            Some (c_string buffer) } }"

definition convert_big_integer_to_any_base ::
  "big_integer \<Rightarrow> int16_t \<Rightarrow> string \<Rightarrow> nat \<Rightarrow> bool \<Rightarrow> string option" where
  "convert_big_integer_to_any_base v base alph buffer_length simd =
     (if sint base > 0 then convert_big_integer_to_positive_base v base alph buffer_length simd
      else convert_big_integer_to_negative_base v base alph buffer_length simd)"

subsection \<open>The entry point\<close>

text \<open>
  \<open>arith_op_any_base__binary_conversion\<close> writes a NUL-terminated string into the caller's
  \<open>result\<close> buffer; the model returns that string.
\<close>

definition arith_op_any_base__binary_conversion ::
  "int \<Rightarrow> string \<Rightarrow> string \<Rightarrow> string \<Rightarrow> char \<Rightarrow> bool \<Rightarrow> string option" where
  "arith_op_any_base__binary_conversion base alph z1 z2 op simd =
     do { let z1_negative = (base > 1 \<and> take 1 z1 = ''-'');
          let z2_negative = (base > 1 \<and> take 1 z2 = ''-'');
          let z1_length = length z1;
          let z2_length = length z2;
          let z1_binary_minsize = get_big_integer_min_size base z1_length;
          let z2_binary_minsize = get_big_integer_min_size base z2_length;
          let z2_binary = create_big_integer z2_binary_minsize False;
          let addition_subtraction_min_result_size = max z1_binary_minsize z2_binary_minsize + 1;
          let z1_binary = (if op = CHR ''+'' \<or> op = CHR ''-''
                           then create_big_integer addition_subtraction_min_result_size False
                           else create_big_integer z1_binary_minsize False);
          (z1_binary, z2_binary) \<leftarrow>
             convert_numbers_from_any_base_into_binary base alph z1 z2 z1_binary z2_binary simd;
          let z1_binary = (if z1_negative then z1_binary\<lparr>sign := True\<rparr> else z1_binary);
          let z2_binary = (if z2_negative then z2_binary\<lparr>sign := True\<rparr> else z2_binary);
          (res, result_length) \<leftarrow>
             (if op = CHR ''+'' then
                do { (a, b) \<leftarrow> big_integer_addition z1_binary z2_binary simd;
                     Some (a, max z1_length z2_length + 2 + (if base < 0 then 1 else 0)) }
              else if op = CHR ''-'' then
                do { (a, b) \<leftarrow> big_integer_subtraction z1_binary z2_binary simd;
                     Some (a, max z1_length z2_length + 3) }
              else if op = CHR ''*'' then
                do { let res = create_big_integer (big_length z1_binary + big_length z2_binary) False;
                     res \<leftarrow> big_integer_multiplication z1_binary z2_binary res simd;
                     Some (res, max z1_length z2_length * 2 + 1) }
              else None);
          z \<leftarrow> big_integer_is_zero res simd;
          let res = (if z then res\<lparr>sign := False\<rparr> else res);
          convert_big_integer_to_any_base res (of_int base) alph result_length simd }"

section \<open>The literal scenario of claim C9\<close>

text \<open>
  Claim C9: for base \<open>-2\<close>, alphabet \<open>01\<close>, \<open>z1 = 11\<close>, \<open>z2 = 11\<close> and the operator
  \<open>*\<close> the entry point writes the string \<open>1\<close>, with either setting of the SIMD flag.
\<close>

theorem compute_neg2_11_times_11:
  "arith_op_any_base__binary_conversion (- 2) ''01'' ''11'' ''11'' (CHR ''*'') False = Some ''1''
   \<and> arith_op_any_base__binary_conversion (- 2) ''01'' ''11'' ''11'' (CHR ''*'') True = Some ''1''"
  by code_simp

section \<open>The second operand of addition and subtraction (claim C10)\<close>

text \<open>
  Whenever \<open>big_integer_addition\<close> or \<open>big_integer_subtraction\<close> returns, the second
  operand is what it was on entry, and the first operand has kept its length.
\<close>

lemma big_integer_addition_frame:
  "big_integer_addition a b simd = Some (a', b') \<Longrightarrow> b' = b"
  using add_sub_frame(1) [of a b simd] by blast

lemma big_integer_subtraction_frame:
  "big_integer_subtraction a b simd = Some (a', b') \<Longrightarrow> b' = b"
  using add_sub_frame(2) [of a b simd] by blast

lemma big_integer_addition_length:
  "big_integer_addition a b simd = Some (a', b') \<Longrightarrow> big_length a' = big_length a"
  using add_sub_frame(1) [of a b simd] by blast

lemma big_integer_subtraction_length:
  "big_integer_subtraction a b simd = Some (a', b') \<Longrightarrow> big_length a' = big_length a"
  using add_sub_frame(2) [of a b simd] by blast

text \<open>
  Claim C10 at two negative operands of which the first is the shorter one (\<open>a = -1\<close> in one
  byte, \<open>b = -2\<close> in two bytes): \<open>value_a->length - value_b->length\<close> wraps around in
  \<open>size_t\<close>, \<open>max(0, ...)\<close> keeps the huge value, the clone of \<open>b\<close> gets one byte and the
  \<open>memcpy\<close> of two bytes runs over its end.  The subtraction does not return normally.
\<close>

theorem big_integer_subtraction_negative_shorter_first:
  "big_integer_subtraction \<lparr>sign = True, mem = [1]\<rparr> \<lparr>sign = True, mem = [2, 0]\<rparr> False = None
   \<and> big_integer_subtraction \<lparr>sign = True, mem = [1]\<rparr> \<lparr>sign = True, mem = [2, 0]\<rparr> True = None"
  by (simp add: big_integer_subtraction.simps clone_big_integer_add_size_def size_t_sub_def
        big_length_def)

subsection \<open>The bit-wise left shift in closed form\<close>

lemma not_bit_of_small:
  fixes c :: "'a::len word"
  assumes "unat c < 2 ^ k" and "\<not> n < k"
  shows "\<not> bit c n"
proof -
  have le: "(2::nat) ^ k \<le> 2 ^ n" by (rule power_increasing) (use assms(2) in simp_all)
  have "unat c < 2 ^ n" using assms(1) le by (rule less_le_trans)
  then have "unat c div 2 ^ n = 0" by (rule div_less)
  then have "\<not> bit (unat c) n" by (simp add: bit_iff_odd)
  then show ?thesis by (simp add: bit_unsigned_iff)
qed

lemma or_shift_add:
  fixes x c :: "'a::len word"
  assumes "unat c < 2 ^ k"
  shows "push_bit k x OR c = push_bit k x + c"
proof (rule disjunctive_add [symmetric])
  fix n
  show "\<not> bit (push_bit k x) n \<or> \<not> bit c n"
  proof (cases "n < k")
    case True then show ?thesis by (simp add: bit_push_bit_iff)
  next
    case False
    then show ?thesis using not_bit_of_small [OF assms False] by simp
  qed
qed

lemma pow2_le_256: "k \<le> 8 \<Longrightarrow> (2::nat) ^ k \<le> 256"
  using power_increasing [of k 8 "2::nat"] by simp

lemma shl16_unat:
  fixes x c :: uint8_t
  assumes k: "k \<le> 8" and c: "unat c < 2 ^ k"
  shows "unat (push_bit k (ucast x :: uint16_t) OR ucast c) = unat x * 2 ^ k + unat c"
proof -
  have x8: "unat x < 256" and c8: "unat c < 256" using unsigned_less [of x] unsigned_less [of c] by simp_all
  have uc: "unat (ucast c :: 16 word) = unat c"
    using c8 by (simp add: unsigned_ucast_eq take_bit_nat_eq_self)
  have ux: "unat (ucast x :: 16 word) = unat x"
    using x8 by (simp add: unsigned_ucast_eq take_bit_nat_eq_self)
  have p: "(2::nat) ^ k \<le> 256" using k by (rule pow2_le_256)
  have "unat x * 2 ^ k \<le> 255 * 2 ^ k" using x8 by simp
  also have "\<dots> \<le> 255 * 256" using p by simp
  finally have b1: "unat x * 2 ^ k \<le> 65280" by simp
  have "unat (push_bit k (ucast x :: 16 word)) = take_bit 16 (push_bit k (unat (ucast x :: 16 word)))"
    using unsigned_push_bit_eq [of k "ucast x :: 16 word", where 'a = nat] by simp
  also have "\<dots> = take_bit 16 (unat x * 2 ^ k)" by (simp only: ux push_bit_eq_mult)
  also have "\<dots> = unat x * 2 ^ k" using b1 by (simp add: take_bit_nat_eq_self)
  finally have up: "unat (push_bit k (ucast x :: 16 word)) = unat x * 2 ^ k" .
  have "unat (push_bit k (ucast x :: 16 word) OR ucast c) = unat (push_bit k (ucast x :: 16 word) + ucast c)"
    using or_shift_add [of "ucast c :: 16 word" k "ucast x"] c uc by simp
  also have "\<dots> = unat x * 2 ^ k + unat c"
    using b1 c8 by (simp add: unat_word_ariths up uc)
  finally show ?thesis .
qed

lemma shl64_unat:
  fixes c :: uint8_t
  assumes k: "k \<le> 8" and c: "unat c < 2 ^ k" and A: "A < 2 ^ 56"
  shows "unat (push_bit k (of_nat A :: uint64_t) OR ucast c) = A * 2 ^ k + unat c"
proof -
  have c8: "unat c < 256" using unsigned_less [of c] by simp
  have uc: "unat (ucast c :: 64 word) = unat c"
    using c8 by (simp add: unsigned_ucast_eq take_bit_nat_eq_self)
  have ux: "unat (of_nat A :: 64 word) = A"
    using A by (simp add: unat_of_nat)
  have p: "(2::nat) ^ k \<le> 256" using k by (rule pow2_le_256)
  have "A * 2 ^ k \<le> (2 ^ 56 - 1) * 2 ^ k" using A by simp
  also have "\<dots> \<le> (2 ^ 56 - 1) * 256" using p by simp
  finally have b1: "A * 2 ^ k \<le> (2 ^ 56 - 1) * 256" by simp
  have "unat (push_bit k (of_nat A :: 64 word)) = take_bit 64 (push_bit k (unat (of_nat A :: 64 word)))"
    using unsigned_push_bit_eq [of k "of_nat A :: 64 word", where 'a = nat] by simp
  also have "\<dots> = take_bit 64 (A * 2 ^ k)" by (simp only: ux push_bit_eq_mult)
  also have "\<dots> = A * 2 ^ k" using b1 by (simp add: take_bit_nat_eq_self)
  finally have up: "unat (push_bit k (of_nat A :: 64 word)) = A * 2 ^ k" .
  have "unat (push_bit k (of_nat A :: 64 word) OR ucast c) = unat (push_bit k (of_nat A :: 64 word) + ucast c)"
    using or_shift_add [of "ucast c :: 64 word" k "of_nat A"] c uc by simp
  also have "\<dots> = A * 2 ^ k + unat c"
    using b1 c8 by (simp add: unat_word_ariths up uc)
  finally show ?thesis .
qed

lemma hi16_unat:
  fixes w :: uint16_t
  shows "unat (ucast (drop_bit 8 w) :: uint8_t) = unat w div 256"
proof -
  have "unat w < 65536" using unsigned_less [of w] by simp
  then have "unat w div 256 < 256" by simp
  then show ?thesis
    by (simp add: unsigned_ucast_eq unsigned_drop_bit_eq drop_bit_eq_div take_bit_nat_eq_self unat_div)
qed

lemma hi64_unat:
  fixes w :: uint64_t
  shows "unat (ucast (drop_bit 56 w) :: uint8_t) = unat w div 2 ^ 56"
proof -
  have "unat w < 2 ^ 64" using unsigned_less [of w] by simp
  then have "unat w div 2 ^ 56 < 256" by simp
  then show ?thesis
    by (simp add: unsigned_ucast_eq unsigned_drop_bit_eq drop_bit_eq_div take_bit_nat_eq_self unat_div)
qed

lemma lo56_unat:
  fixes w :: uint64_t
  shows "unat (w AND 0x00FFFFFFFFFFFFFF) = unat w mod 2 ^ 56"
proof -
  have "(0x00FFFFFFFFFFFFFF :: uint64_t) = mask 56" by (simp add: mask_eq_exp_minus_1)
  then show ?thesis
    by (simp only: flip: take_bit_eq_mask) (simp add: unsigned_take_bit_eq take_bit_eq_mod unat_mod)
qed


text \<open>What the shift loop still has to produce when it stands at index \<open>i\<close>.\<close>

definition shl_sum :: "big_integer \<Rightarrow> nat \<Rightarrow> nat \<Rightarrow> uint8_t \<Rightarrow> nat" where
  "shl_sum v k i c = le_val (drop i (mem v)) * 2 ^ k + unat c"

lemma shl_chunk_step:
  assumes iv: "i + m \<le> big_length v"
    and T: "T = le_val (take m (drop i (mem v))) * 2 ^ k + unat c"
    and v': "v' = v\<lparr>mem := take i (mem v) @ le_bytes m T @ drop (i + m) (mem v)\<rparr>"
    and c': "unat c' = T div 256 ^ m"
  shows "v'\<lparr>mem := take (i + m) (mem v')
                  @ le_bytes (big_length v' - (i + m)) (shl_sum v' k (i + m) c')\<rparr>
       = v\<lparr>mem := take i (mem v) @ le_bytes (big_length v - i) (shl_sum v k i c)\<rparr>"
proof -
  define r where "r = big_length v - (i + m)"
  have n: "big_length v - i = m + r" using iv by (simp add: r_def)
  define V' where "V' = le_val (drop (i + m) (mem v))"
  have la: "i + m \<le> length (mem v)" using iv by (simp add: big_length_def)
  have len': "big_length v' = big_length v" using la by (simp add: v' big_length_def)
  have dr': "drop (i + m) (mem v') = drop (i + m) (mem v)" using la by (simp add: v')
  have tk': "take (i + m) (mem v') = take i (mem v) @ le_bytes m T" using la by (simp add: v')
  have S: "shl_sum v k i c = T + 256 ^ m * (V' * 2 ^ k)"
    unfolding shl_sum_def T V'_def using le_val_drop_chunk [OF la]
    by (simp add: algebra_simps)
  have S': "shl_sum v' k (i + m) c' = V' * 2 ^ k + T div 256 ^ m"
    by (simp add: shl_sum_def dr' V'_def c')
  have Sdiv: "shl_sum v k i c div 256 ^ m = shl_sum v' k (i + m) c'"
    unfolding S S' by simp
  have Smod: "le_bytes m (shl_sum v k i c) = le_bytes m T"
  proof -
    have "shl_sum v k i c mod 256 ^ m = T mod 256 ^ m" unfolding S by simp
    then show ?thesis by (metis le_bytes_mod)
  qed
  have bytes: "le_bytes (m + r) (shl_sum v k i c)
      = le_bytes m T @ le_bytes r (shl_sum v' k (i + m) c')"
    by (simp add: le_bytes_append Smod Sdiv)
  have upd: "\<And>X. v'\<lparr>mem := X\<rparr> = v\<lparr>mem := X\<rparr>" by (simp add: v')
  show ?thesis
    by (simp add: len' n tk' bytes upd r_def [symmetric])
qed

lemma shl_carry_bound:
  assumes k: "k \<le> 8" and A: "A < 256 ^ m" and c: "c < 2 ^ k"
  shows "(A * 2 ^ k + c) div 256 ^ m < (2::nat) ^ k"
proof -
  have "A * 2 ^ k + c < (A + 1) * 2 ^ k" using c by simp
  also have "\<dots> \<le> 256 ^ m * 2 ^ k" using A by (intro mult_le_mono1) simp
  finally have "A * 2 ^ k + c < 2 ^ k * 256 ^ m" by (simp add: mult.commute)
  then show ?thesis by (simp add: less_mult_imp_div_less)
qed

lemma big_integer_shl_bitwise_byte_loop_eq:
  "k \<le> 8 \<Longrightarrow> unat c < 2 ^ k \<Longrightarrow> i \<le> big_length v \<Longrightarrow>
   big_integer_shl_bitwise_byte_loop v k i c =
     Some (v\<lparr>mem := take i (mem v) @ le_bytes (big_length v - i) (shl_sum v k i c)\<rparr>)"
proof (induction v k i c rule: big_integer_shl_bitwise_byte_loop.induct)
  case (1 v k i c)
  show ?case
  proof (cases "i < big_length v")
    case False
    then have "i = big_length v" using "1.prems" by simp
    then show ?thesis
      by (subst big_integer_shl_bitwise_byte_loop.simps) (simp add: big_length_def)
  next
    case True
    define x where "x = mem v ! i"
    define shifted :: uint16_t where "shifted = push_bit k (ucast x) OR ucast c"
    define T where "T = unat x * 2 ^ k + unat c"
    define c' :: uint8_t where "c' = ucast (drop_bit 8 shifted)"
    define v' where "v' = v\<lparr>mem := (mem v)[i := ucast shifted]\<rparr>"
    have us: "unat shifted = T"
      unfolding shifted_def T_def by (rule shl16_unat [OF "1.prems"(1,2)])
    have byte: "(ucast shifted :: uint8_t) = of_nat T"
      by (rule ucast_16_8_eq_of_nat) (simp add: us)
    have li: "i < length (mem v)" using True by (simp add: big_length_def)
    have tk1: "take 1 (drop i (mem v)) = [x]"
      using li by (simp flip: Cons_nth_drop_Suc add: x_def)
    have T1: "T = le_val (take 1 (drop i (mem v))) * 2 ^ k + unat c"
      using tk1 by (simp add: T_def)
    have v'1: "v' = v\<lparr>mem := take i (mem v) @ le_bytes 1 T @ drop (i + 1) (mem v)\<rparr>"
      using li by (simp add: v'_def byte upd_conv_take_nth_drop)
    have uc': "unat c' = T div 256 ^ 1"
      unfolding c'_def by (simp add: hi16_unat us)
    have cb: "unat c' < 2 ^ k"
      unfolding uc' T_def
      using shl_carry_bound [OF "1.prems"(1) _ "1.prems"(2), of "unat x" 1] unat_u8_lt [of x]
      by simp
    have gx: "get_byte_value_of_big_integer v i = Some x"
      using True by (simp add: get_byte_value_of_big_integer_def x_def)
    have sx: "set_byte_value_of_big_integer v i (ucast shifted) = Some v'"
      using True by (simp add: set_byte_value_of_big_integer_def v'_def)
    have len': "i + 1 \<le> big_length v'" using True by (simp add: v'_def big_length_def)
    have IH: "big_integer_shl_bitwise_byte_loop v' k (i + 1) c' =
       Some (v'\<lparr>mem := take (i + 1) (mem v')
                  @ le_bytes (big_length v' - (i + 1)) (shl_sum v' k (i + 1) c')\<rparr>)"
      using "1.IH" [OF True gx refl refl refl sx [unfolded shifted_def] "1.prems"(1) _ len']
        cb by (simp add: c'_def shifted_def)
    have unfold: "big_integer_shl_bitwise_byte_loop v k i c =
        big_integer_shl_bitwise_byte_loop v' k (i + 1) c'"
      using True
      by (subst big_integer_shl_bitwise_byte_loop.simps)
         (simp add: gx sx c'_def shifted_def [symmetric] Let_def del: drop_bit_or)
    have iv: "i + 1 \<le> big_length v" using True by simp
    show ?thesis
      unfolding unfold IH
      using shl_chunk_step [OF iv T1 v'1 uc'] by simp
  qed
qed

lemma big_integer_shl_bitwise_simd56_loop_eq:
  "k \<le> 8 \<Longrightarrow> unat c < 2 ^ k \<Longrightarrow> i \<le> big_length v \<Longrightarrow>
   big_integer_shl_bitwise_simd56_loop v k i c =
     Some (v\<lparr>mem := take i (mem v) @ le_bytes (big_length v - i) (shl_sum v k i c)\<rparr>)"
proof (induction v k i c rule: big_integer_shl_bitwise_simd56_loop.induct)
  case (1 v k i c)
  show ?case
  proof (cases "i + 6 < big_length v")
    case False
    have "big_integer_shl_bitwise_simd56_loop v k i c
        = big_integer_shl_bitwise_byte_loop v k i c"
      by (subst big_integer_shl_bitwise_simd56_loop.simps) (simp only: False if_False)
    then show ?thesis using "1.prems"
      by (simp add: big_integer_shl_bitwise_byte_loop_eq)
  next
    case True
    then have iv: "i + 7 \<le> big_length v" by simp
    define A where "A = le_val (take 7 (drop i (mem v)))"
    define shifted :: uint64_t where "shifted = push_bit k (of_nat A) OR ucast c"
    define T where "T = A * 2 ^ k + unat c"
    define c' :: uint8_t where "c' = ucast (drop_bit 56 shifted)"
    define v' where "v' = v\<lparr>mem := take i (mem v) @ le_bytes 7 T @ drop (i + 7) (mem v)\<rparr>"
    have Ab: "A < 256 ^ 7"
      using le_val_chunk_bound [of i 7 "mem v"] iv by (simp add: A_def big_length_def)
    then have Ab': "A < 2 ^ 56" by simp
    have us: "unat shifted = T"
      unfolding shifted_def T_def by (rule shl64_unat [OF "1.prems"(1,2) Ab'])
    have g7: "get_7_bytes__of_big_integer v i = Some (of_nat A)"
      using True by (simp add: get_7_bytes__of_big_integer_def A_def)
    have lo: "le_bytes 7 (unat (shifted AND 0x00FFFFFFFFFFFFFF)) = le_bytes 7 T"
      using le_bytes_mod [of 7 T] by (simp add: lo56_unat us)
    have s7: "set_7_bytes__of_big_integer v i (shifted AND 0x00FFFFFFFFFFFFFF) = Some v'"
      using True by (simp add: set_7_bytes__of_big_integer_def v'_def lo)
    have uc': "unat c' = T div 256 ^ 7"
      unfolding c'_def by (simp add: hi64_unat us)
    have cb: "unat c' < 2 ^ k"
      unfolding uc' T_def by (rule shl_carry_bound [OF "1.prems"(1) Ab "1.prems"(2)])
    have len': "i + 7 \<le> big_length v'" using iv by (simp add: v'_def big_length_def)
    have IH: "big_integer_shl_bitwise_simd56_loop v' k (i + 7) c' =
       Some (v'\<lparr>mem := take (i + 7) (mem v')
                  @ le_bytes (big_length v' - (i + 7)) (shl_sum v' k (i + 7) c')\<rparr>)"
      using "1.IH" [OF True g7 refl refl refl s7 [unfolded shifted_def] "1.prems"(1) _ len']
        cb by (simp add: c'_def shifted_def)
    have unfold: "big_integer_shl_bitwise_simd56_loop v k i c =
        big_integer_shl_bitwise_simd56_loop v' k (i + 7) c'"
      using True
      by (subst big_integer_shl_bitwise_simd56_loop.simps)
         (simp add: g7 s7 c'_def shifted_def [symmetric] Let_def del: drop_bit_or)
    show ?thesis
      unfolding unfold IH
      using shl_chunk_step [OF iv _ v'_def uc'] by (simp add: T_def A_def)
  qed
qed

text \<open>Both variants of the shift multiply the magnitude by \<open>2 ^ bit_count\<close> modulo
  \<open>256 ^ length\<close>.\<close>

lemma big_integer_shl_bitwise_0_to_7_eq:
  "k \<le> 8 \<Longrightarrow>
   big_integer_shl_bitwise_0_to_7 v k simd =
     Some (v\<lparr>mem := le_bytes (big_length v) (le_val (mem v) * 2 ^ k)\<rparr>)"
  by (simp add: big_integer_shl_bitwise_0_to_7_def big_integer_shl_bitwise_0_to_7__simd56_def
        big_integer_shl_bitwise_0_to_7__sisd_def big_integer_shl_bitwise_simd56_loop_eq
        big_integer_shl_bitwise_byte_loop_eq shl_sum_def)

section \<open>The digit invariant of Double Dabble (claim C8)\<close>

text \<open>
  When every byte is below 128, shifting the buffer left by one bit doubles every byte: no
  bit crosses a byte boundary.
\<close>

lemma le_bytes_double:
  "\<forall>x \<in> set xs. unat x < 128 \<Longrightarrow>
   le_bytes (length xs) (le_val xs * 2) = map (\<lambda>x. 2 * x) xs"
proof (induction xs)
  case Nil
  show ?case by simp
next
  case (Cons x xs)
  have x: "unat x < 128" using Cons.prems by simp
  have v: "le_val (x # xs) * 2 = 2 * unat x + 256 * (le_val xs * 2)" by simp
  have d: "(2 * unat x + 256 * (le_val xs * 2)) div 256 = le_val xs * 2" using x by simp
  have b: "(of_nat (2 * unat x + 256 * (le_val xs * 2)) :: uint8_t) = 2 * x"
    by (simp add: word_unat_eq_iff unat_of_nat unat_word_ariths mod_mult_right_eq)
  have "le_bytes (length (x # xs)) (le_val (x # xs) * 2)
      = of_nat (2 * unat x + 256 * (le_val xs * 2))
        # le_bytes (length xs) ((2 * unat x + 256 * (le_val xs * 2)) div 256)"
    by (simp only: v list.size le_bytes.simps add_Suc_right add_0_right One_nat_def)
  also have "\<dots> = 2 * x # le_bytes (length xs) (le_val xs * 2)" by (simp only: d b)
  also have "\<dots> = map (\<lambda>x. 2 * x) (x # xs)" using Cons by simp
  finally show ?case .
qed

text \<open>
  The invariant of the adjusting loop at index \<open>j\<close>: the bytes below \<open>j\<close> are digits, the
  byte at \<open>j\<close> is at most \<open>2 * b - 1\<close> (a doubled digit plus a carry) and the bytes above
  are doubled digits.
\<close>

definition dd_inv :: "nat \<Rightarrow> uint8_t list \<Rightarrow> nat \<Rightarrow> bool" where
  "dd_inv b xs j \<longleftrightarrow>
     (\<forall>i < length xs. (i < j \<longrightarrow> unat (xs ! i) < b) \<and> (i = j \<longrightarrow> unat (xs ! i) \<le> 2 * b - 1)
        \<and> (j < i \<longrightarrow> unat (xs ! i) \<le> 2 * b - 2))"

lemma unat_sub_base:
  fixes x :: uint8_t
  assumes "2 \<le> b" "b \<le> 128" "b \<le> unat x"
  shows "unat (x + of_nat (256 - b)) = unat x - b"
proof -
  have x: "unat x < 256" by (rule unat_u8_lt)
  have e: "unat x + (256 - b) = (unat x - b) + 256" using assms by simp
  have m: "(unat x + (256 - b)) mod 256 = unat x - b" unfolding e using x by simp
  have "unat (of_nat (256 - b) :: uint8_t) = (256 - b) mod 2 ^ LENGTH(8)"
    by (simp only: unat_of_nat)
  also have "\<dots> = 256 - b" using assms by simp
  finally have c: "unat (of_nat (256 - b) :: uint8_t) = 256 - b" .
  show ?thesis unfolding unat_word_ariths c using m by simp
qed

lemma unat_succ_small:
  fixes y :: uint8_t
  assumes "unat y < 255"
  shows "unat (y + 1) = unat y + 1"
  using assms by (simp add: unat_word_ariths)

lemma double_dabble_adjust_inv:
  assumes b: "2 \<le> b" "b \<le> 128"
    and inv: "dd_inv b (mem calc_buffer) j"
    and j: "j < big_length calc_buffer"
    and r: "double_dabble_adjust (of_nat b) (of_nat (256 - b)) calc_buffer j = Some calc_buffer'"
  shows "dd_inv b (mem calc_buffer') (j + 1)"
proof -
  define x where "x = mem calc_buffer ! j"
  have lj: "j < length (mem calc_buffer)" using j by (simp add: big_length_def)
  have tb: "unat (of_nat b :: uint8_t) = b" using b by (simp add: unat_of_nat)
  have xj: "unat x \<le> 2 * b - 1" using inv lj by (simp add: dd_inv_def x_def)
  show ?thesis
  proof (cases "of_nat b \<le> x")
    case False
    then have "calc_buffer' = calc_buffer"
      using r j by (simp add: double_dabble_adjust_def get_byte_value_of_big_integer_def x_def)
    moreover have "unat x < b" using False tb by (simp add: word_le_nat_alt)
    ultimately show ?thesis using inv
      by (auto simp: dd_inv_def x_def less_Suc_eq)
  next
    case True
    then have bx: "b \<le> unat x" using tb by (simp add: word_le_nat_alt)
    have j1: "j + 1 < length (mem calc_buffer)"
      using r j True
      by (auto simp: double_dabble_adjust_def get_byte_value_of_big_integer_def
            set_byte_value_of_big_integer_def x_def big_length_def split: if_splits)
    define y where "y = mem calc_buffer ! (j + 1)"
    have m': "mem calc_buffer' = (mem calc_buffer)[j := x + of_nat (256 - b), j + 1 := y + 1]"
      using r j True j1
      by (auto simp: double_dabble_adjust_def get_byte_value_of_big_integer_def
            set_byte_value_of_big_integer_def x_def y_def big_length_def)
    have yb: "unat y \<le> 2 * b - 2" using inv j1 by (simp add: dd_inv_def y_def)
    have x': "unat (x + of_nat (256 - b)) < b"
      using unat_sub_base [OF b bx] xj b by simp
    have y': "unat (y + 1) \<le> 2 * b - 1"
      using unat_succ_small [of y] yb b by simp
    show ?thesis
      unfolding dd_inv_def m'
    proof (intro allI impI)
      fix i assume "i < length ((mem calc_buffer)[j := x + of_nat (256 - b), j + 1 := y + 1])"
      then have i: "i < length (mem calc_buffer)" by simp
      consider "i < j" | "i = j" | "i = j + 1" | "j + 1 < i" by linarith
      then show "(i < j + 1 \<longrightarrow> unat ((mem calc_buffer)[j := x + of_nat (256 - b), j + 1 := y + 1] ! i) < b)
          \<and> (i = j + 1 \<longrightarrow> unat ((mem calc_buffer)[j := x + of_nat (256 - b), j + 1 := y + 1] ! i) \<le> 2 * b - 1)
          \<and> (j + 1 < i \<longrightarrow> unat ((mem calc_buffer)[j := x + of_nat (256 - b), j + 1 := y + 1] ! i) \<le> 2 * b - 2)"
      proof cases
        case 1 then show ?thesis using inv i by (simp add: dd_inv_def)
      next
        case 2 then show ?thesis using x' i by simp
      next
        case 3 then show ?thesis using y' i by simp
      next
        case 4 then show ?thesis using inv i by (simp add: dd_inv_def)
      qed
    qed
  qed
qed

lemma double_dabble_adjust_loop_inv:
  assumes b: "2 \<le> b" "b \<le> 128"
  shows "dd_inv b (mem calc_buffer) j \<Longrightarrow>
     double_dabble_adjust_loop (of_nat b) (of_nat (256 - b)) calc_buffer j = Some calc_buffer'
     \<Longrightarrow> \<forall>x \<in> set (mem calc_buffer'). unat x < b"
proof (induction "big_length calc_buffer - j" arbitrary: calc_buffer j)
  case 0
  then have jn: "\<not> j < big_length calc_buffer" by simp
  then have "calc_buffer' = calc_buffer"
    using "0.prems"(2) by (subst (asm) double_dabble_adjust_loop.simps) simp
  moreover have "\<forall>i < length (mem calc_buffer). unat (mem calc_buffer ! i) < b"
    using "0.prems"(1) jn by (simp add: dd_inv_def big_length_def)
  ultimately show ?case by (simp add: all_set_conv_all_nth)
next
  case (Suc n)
  then have jn: "j < big_length calc_buffer" by simp
  obtain cb1 where s1: "double_dabble_adjust (of_nat b) (of_nat (256 - b)) calc_buffer j = Some cb1"
    and s2: "double_dabble_adjust_loop (of_nat b) (of_nat (256 - b)) cb1 (j + 1) = Some calc_buffer'"
    using Suc.prems(2) jn
    by (subst (asm) double_dabble_adjust_loop.simps) (auto split: Option.bind_splits)
  have len: "big_length cb1 = big_length calc_buffer" by (rule double_dabble_adjust_length [OF s1])
  have inv1: "dd_inv b (mem cb1) (j + 1)"
    by (rule double_dabble_adjust_inv [OF b Suc.prems(1) jn s1])
  have "n = big_length cb1 - (j + 1)" using Suc.hyps(2) len by simp
  then show ?case using Suc.hyps(1) inv1 s2 by blast
qed

lemma double_dabble_iteration_inv:
  assumes b: "2 \<le> b" "b \<le> 128"
    and inv: "\<forall>x \<in> set (mem calc_buffer). unat x < b"
    and r: "double_dabble_iteration (of_nat b) (of_nat (256 - b)) simd (calc_buffer, remaining_value)
             = Some (calc_buffer', remaining_value')"
  shows "\<forall>x \<in> set (mem calc_buffer'). unat x < b"
proof -
  define cb1 where "cb1 = calc_buffer\<lparr>mem := map (\<lambda>x. 2 * x) (mem calc_buffer)\<rparr>"
  have small: "\<forall>x \<in> set (mem calc_buffer). unat x < 128" using inv b by auto
  have shl: "big_integer_shl_bitwise_0_to_7 calc_buffer 1 simd = Some cb1"
    using le_bytes_double [OF small]
    by (simp add: big_integer_shl_bitwise_0_to_7_eq cb1_def big_length_def)
  obtain m cb3 where
        s2: "set_byte_value_of_big_integer cb1 0 (mem cb1 ! 0 OR bool_to_word m) = Some cb3"
    and s3: "double_dabble_adjust_loop (of_nat b) (of_nat (256 - b)) cb3 0 = Some calc_buffer'"
    using r shl
    by (auto simp: double_dabble_iteration_def get_byte_value_of_big_integer_def
          split: Option.bind_splits if_splits)
  have n0: "0 < length (mem calc_buffer)"
    using s2 by (auto simp: set_byte_value_of_big_integer_def big_length_def cb1_def split: if_splits)
  define x0 where "x0 = mem calc_buffer ! 0"
  have m3: "mem cb3 = (map (\<lambda>x. 2 * x) (mem calc_buffer))[0 := 2 * x0 OR bool_to_word m]"
    using s2 n0
    by (auto simp: set_byte_value_of_big_integer_def big_length_def cb1_def x0_def split: if_splits)
  have dbl: "\<And>x :: uint8_t. unat x < b \<Longrightarrow> unat (2 * x) = 2 * unat x"
    using b by (simp add: unat_word_ariths)
  have x0b: "unat x0 < b" using inv n0 by (simp add: x0_def)
  have or1: "2 * x0 OR bool_to_word m = 2 * x0 + bool_to_word m"
    using or_shift_add [of "bool_to_word m" 1 x0] by (simp add: unat_bool_to_word b2n_def push_bit_eq_mult mult.commute)
  have u0: "unat (2 * x0 OR bool_to_word m) \<le> 2 * b - 1"
  proof -
    have "unat (2 * x0 + bool_to_word m) = 2 * unat x0 + b2n m"
      using x0b b b2n_le1 [of m] by (simp add: unat_word_ariths dbl unat_bool_to_word)
    then show ?thesis using x0b b2n_le1 [of m] unfolding or1 by simp
  qed
  have inv3: "dd_inv b (mem cb3) 0"
    unfolding dd_inv_def m3
  proof (intro allI impI)
    fix i assume "i < length ((map (\<lambda>x. 2 * x) (mem calc_buffer))[0 := 2 * x0 OR bool_to_word m])"
    then have i: "i < length (mem calc_buffer)" by simp
    show "(i < 0 \<longrightarrow> unat ((map (\<lambda>x. 2 * x) (mem calc_buffer))[0 := 2 * x0 OR bool_to_word m] ! i) < b)
        \<and> (i = 0 \<longrightarrow> unat ((map (\<lambda>x. 2 * x) (mem calc_buffer))[0 := 2 * x0 OR bool_to_word m] ! i) \<le> 2 * b - 1)
        \<and> (0 < i \<longrightarrow> unat ((map (\<lambda>x. 2 * x) (mem calc_buffer))[0 := 2 * x0 OR bool_to_word m] ! i) \<le> 2 * b - 2)"
    proof (cases "i = 0")
      case True then show ?thesis using u0 i by simp
    next
      case False
      have "unat (mem calc_buffer ! i) < b" using inv i by simp
      then have "unat (2 * (mem calc_buffer ! i)) \<le> 2 * b - 2" using dbl [of "mem calc_buffer ! i"] by simp
      then show ?thesis using False i by simp
    qed
  qed
  show ?thesis by (rule double_dabble_adjust_loop_inv [OF b inv3 s3])
qed


lemma double_dabble_loop_inv:
  assumes b: "2 \<le> b" "b \<le> 128"
  shows "\<forall>x \<in> set (mem calc_buffer). unat x < b \<Longrightarrow>
     double_dabble_loop (of_nat b) (of_nat (256 - b)) simd n (calc_buffer, remaining_value)
       = Some (calc_buffer', remaining_value')
     \<Longrightarrow> \<forall>x \<in> set (mem calc_buffer'). unat x < b"
proof (induction n arbitrary: calc_buffer remaining_value)
  case 0
  then show ?case by simp
next
  case (Suc n)
  obtain cb1 rv1 where
        s1: "double_dabble_iteration (of_nat b) (of_nat (256 - b)) simd
               (calc_buffer, remaining_value) = Some (cb1, rv1)"
    and s2: "double_dabble_loop (of_nat b) (of_nat (256 - b)) simd n (cb1, rv1)
               = Some (calc_buffer', remaining_value')"
    using Suc.prems(2) by (auto split: Option.bind_splits)
  have "\<forall>x \<in> set (mem cb1). unat x < b"
    by (rule double_dabble_iteration_inv [OF b Suc.prems(1) s1])
  then show ?case using Suc.IH s2 by blast
qed

lemma base_as_trigger:
  fixes base :: int16_t
  assumes "2 \<le> sint base" "sint base \<le> 128"
  shows "(ucast base :: uint8_t) = of_nat (nat (sint base))"
    and "(of_int (256 - sint base) :: uint8_t) = of_nat (256 - nat (sint base))"
proof -
  have u: "uint base = sint base"
    using assms by (simp add: uint_sint take_bit_int_eq_self)
  have "(ucast base :: uint8_t) = word_of_int (sint base)" by (simp only: ucast_eq u)
  also have "\<dots> = of_nat (nat (sint base))" using assms by (intro word_of_int_nat) simp
  finally show "(ucast base :: uint8_t) = of_nat (nat (sint base))" .
  have "(of_int (256 - sint base) :: uint8_t) = of_nat (nat (256 - sint base))"
    using assms by (intro word_of_int_nat) simp
  also have "nat (256 - sint base) = 256 - nat (sint base)" using assms by simp
  finally show "(of_int (256 - sint base) :: uint8_t) = of_nat (256 - nat (sint base))" .
qed

text \<open>
  Claim C8: for a base \<open>b\<close> with \<open>2 \<le> b \<le> 128\<close>, with \<open>conversion_trigger\<close> and
  \<open>carry_add\<close> computed from it as in \<open>convert_big_integer_to_positive_base\<close>: if every
  byte of \<open>calc_buffer\<close> is below \<open>b\<close>, then after any number of iterations of the
  shift-and-adjust loop every byte of \<open>calc_buffer\<close> is below \<open>b\<close> again, with either
  setting of the SIMD flag.  The loop starts from the all-zero buffer, so this holds at the end
  of every iteration and when the loop is left.
\<close>

theorem double_dabble_digits_below_base:
  fixes base :: int16_t
  assumes "2 \<le> sint base" and "sint base \<le> 128"
    and "\<forall>x \<in> set (mem calc_buffer). uint x < sint base"
    and "double_dabble_loop (ucast base) (of_int (256 - sint base)) simd n
           (calc_buffer, remaining_value) = Some (calc_buffer', remaining_value')"
  shows "\<forall>x \<in> set (mem calc_buffer'). uint x < sint base"
proof -
  define b where "b = nat (sint base)"
  have b: "2 \<le> b" "b \<le> 128" using assms(1,2) by (simp_all add: b_def)
  have sb: "sint base = int b" using assms(1) by (simp add: b_def)
  have lt: "\<And>x :: uint8_t. uint x < sint base \<longleftrightarrow> unat x < b"
    unfolding sb by (metis of_nat_less_iff uint_nat)
  have inv: "\<forall>x \<in> set (mem calc_buffer). unat x < b" using assms(3) by (simp add: lt)
  have r: "double_dabble_loop (of_nat b) (of_nat (256 - b)) simd n
           (calc_buffer, remaining_value) = Some (calc_buffer', remaining_value')"
    using assms(4) unfolding base_as_trigger [OF assms(1,2)] b_def .
  show ?thesis using double_dabble_loop_inv [OF b inv r] by (simp add: lt)
qed

theorem double_dabble_digits_below_base_witness:
  "double_dabble_loop (ucast (10 :: int16_t)) (of_int (256 - sint (10 :: int16_t))) False 8
      (\<lparr>sign = False, mem = [0, 0, 0]\<rparr>, \<lparr>sign = False, mem = [0xFF]\<rparr>)
     = Some (\<lparr>sign = False, mem = [5, 5, 2]\<rparr>, \<lparr>sign = False, mem = [0]\<rparr>)
   \<and> uint (5 :: uint8_t) < sint (10 :: int16_t) \<and> uint (2 :: uint8_t) < sint (10 :: int16_t)"
proof -
  have r: "double_dabble_loop (ucast (10 :: int16_t)) (of_int (256 - sint (10 :: int16_t))) False 8
      (\<lparr>sign = False, mem = [0, 0, 0]\<rparr>, \<lparr>sign = False, mem = [0xFF]\<rparr>)
     = Some (\<lparr>sign = False, mem = [5, 5, 2]\<rparr>, \<lparr>sign = False, mem = [0]\<rparr>)"
    by code_simp
  have "\<forall>x \<in> set (mem \<lparr>sign = False, mem = [5, 5, 2]\<rparr>). uint x < sint (10 :: int16_t)"
  proof (rule double_dabble_digits_below_base [OF _ _ _ r])
    show "2 \<le> sint (10 :: int16_t)" by simp
    show "sint (10 :: int16_t) \<le> 128" by simp
    show "\<forall>x \<in> set (mem \<lparr>sign = False, mem = [0, 0, 0]\<rparr>). uint x < sint (10 :: int16_t)"
      by simp
  qed
  then show ?thesis using r by simp
qed

section \<open>The SIMD flag does not change any result (claim C1)\<close>

lemma big_integer_is_zero_simd:
  "big_integer_is_zero v simd = big_integer_is_zero v False"
  by (simp add: big_integer_is_zero_eq)

lemma add_sub_simd:
  "big_integer_addition a b simd = big_integer_addition a b False"
  "big_integer_subtraction a b simd = big_integer_subtraction a b False"
proof (induction a b simd and a b simd rule: big_integer_addition_big_integer_subtraction.induct)
  case (1 a b simd)
  consider (np) "sign a" "\<not> sign b" | (pn) "\<not> sign a" "sign b" | (same) "sign a = sign b"
    by blast
  then show ?case
  proof cases
    case np
    have "big_integer_subtraction (a\<lparr>sign := False\<rparr>) b simd
        = big_integer_subtraction (a\<lparr>sign := False\<rparr>) b False"
      using "1.IH"(1) [OF refl refl] np by simp
    then show ?thesis using np
      by (simp add: big_integer_addition.simps [of a b] Let_def)
  next
    case pn
    have "big_integer_subtraction a (b\<lparr>sign := False\<rparr>) simd
        = big_integer_subtraction a (b\<lparr>sign := False\<rparr>) False"
      using "1.IH"(2) [OF refl refl] pn by simp
    then show ?thesis using pn
      by (simp add: big_integer_addition.simps [of a b] Let_def)
  next
    case same
    then show ?thesis
      by (auto simp add: big_integer_addition.simps [of a b] Let_def
            big_integer_addition_simd_eq_sisd)
  qed
next
  case (2 a b simd)
  consider (pn) "\<not> sign a" "sign b" | (np) "sign a" "\<not> sign b" | (nn) "sign a" "sign b"
    | (pp) "\<not> sign a" "\<not> sign b"
    by blast
  then show ?case
  proof cases
    case pn
    have "big_integer_addition a (b\<lparr>sign := False\<rparr>) simd
        = big_integer_addition a (b\<lparr>sign := False\<rparr>) False"
      using "2.IH"(1) [OF refl refl] pn by simp
    then show ?thesis using pn
      by (simp add: big_integer_subtraction.simps [of a b] Let_def)
  next
    case np
    have "big_integer_addition (a\<lparr>sign := False\<rparr>) b simd
        = big_integer_addition (a\<lparr>sign := False\<rparr>) b False"
      using "2.IH"(2) [OF refl refl] np by simp
    then show ?thesis using np
      by (simp add: big_integer_subtraction.simps [of a b] Let_def)
  next
    case nn
    have "\<And>b_copy. clone_big_integer_add_size b
             (max 0 (size_t_sub (big_length (a\<lparr>sign := False\<rparr>)) (big_length b))) = Some b_copy
        \<Longrightarrow> big_integer_subtraction (b_copy\<lparr>sign := False\<rparr>) (a\<lparr>sign := False\<rparr>) simd
          = big_integer_subtraction (b_copy\<lparr>sign := False\<rparr>) (a\<lparr>sign := False\<rparr>) False"
      using "2.IH"(3) [OF refl refl _ _ _ refl _ refl] nn by simp
    then show ?thesis using nn
      by (simp add: big_integer_subtraction.simps [of a b] Let_def cong: Option.bind_cong)
  next
    case pp
    have g: "positive_big_integer_is_greater_than b a simd
        = positive_big_integer_is_greater_than b a False"
      by (rule positive_big_integer_is_greater_than_simd)
    show ?thesis
    proof (cases "positive_big_integer_is_greater_than b a simd = Some True")
      case True
      have "big_integer_subtraction b a simd = big_integer_subtraction b a False"
        using "2.IH"(4) [OF refl refl _ _ _ True _ refl] pp by simp
      then show ?thesis using pp True g
        by (simp add: big_integer_subtraction.simps [of a b] Let_def)
    next
      case False
      then show ?thesis using pp g
        by (cases "positive_big_integer_is_greater_than b a False")
           (auto simp add: big_integer_subtraction.simps [of a b] Let_def
              big_integer_subtraction_simd_eq_sisd)
    qed
  qed
qed

lemma big_integer_shl_bitwise_0_to_7_simd:
  "k \<le> 8 \<Longrightarrow> big_integer_shl_bitwise_0_to_7 v k simd = big_integer_shl_bitwise_0_to_7 v k False"
  by (simp add: big_integer_shl_bitwise_0_to_7_eq)

lemma big_integer_shl_bitwise_0_to_7_simd_Suc:
  "k \<le> 7 \<Longrightarrow> big_integer_shl_bitwise_0_to_7 v (Suc k) simd
     = big_integer_shl_bitwise_0_to_7 v (Suc k) False"
  by (simp add: big_integer_shl_bitwise_0_to_7_eq)


text \<open>In \<open>big_integer_multiply_uint8\<close> the pending shift never exceeds the bit index, so
  the shift count stays within the range in which the two shift variants agree.\<close>

lemma big_integer_multiply_uint8_loop_simd:
  "to_shift \<le> i \<Longrightarrow>
   big_integer_multiply_uint8_loop mul simd i result temp to_shift
     = big_integer_multiply_uint8_loop mul False i result temp to_shift"
proof (induction mul simd i result temp to_shift rule: big_integer_multiply_uint8_loop.induct)
  case (1 mul simd i result temp to_shift)
  show ?case
  proof (cases "i < 8")
    case False
    then show ?thesis
      by (simp add: big_integer_multiply_uint8_loop.simps [of mul _ i])
  next
    case i: True
    show ?thesis
    proof (cases "drop_bit i mul AND 1 = 1")
      case False
      have "big_integer_multiply_uint8_loop mul simd (i + 1) result temp
               (if i \<noteq> 0 then to_shift + 1 else to_shift)
          = big_integer_multiply_uint8_loop mul False (i + 1) result temp
               (if i \<noteq> 0 then to_shift + 1 else to_shift)"
        using "1.IH"(2) [OF i False] "1.prems" by simp
      then show ?thesis using i False
        by (simp add: big_integer_multiply_uint8_loop.simps [of mul _ i])
    next
      case bit: True
      define temp1 where "temp1 = (if i \<noteq> 0 then big_integer_shl_bitwise_0_to_7 temp (Suc to_shift) False
                          else Some temp)"
      have ts: "to_shift \<le> 7" using i "1.prems" by simp
      have t1: "(if i \<noteq> 0 then big_integer_shl_bitwise_0_to_7 temp (1 + to_shift) simd
                          else Some temp) = temp1"
        using big_integer_shl_bitwise_0_to_7_simd_Suc [OF ts, of temp simd]
        by (simp add: temp1_def)
      have L: "big_integer_multiply_uint8_loop mul simd i result temp to_shift =
          do { t \<leftarrow> temp1;
               (result1, temp2) \<leftarrow> big_integer_addition result t False;
               big_integer_multiply_uint8_loop mul simd (i + 1) result1 temp2
                 (if i \<noteq> 0 then 0 else to_shift) }"
        using i bit
        by (simp add: big_integer_multiply_uint8_loop.simps [of mul simd i] temp1_def Let_def
              add_sub_simd(1) [of _ _ simd] big_integer_shl_bitwise_0_to_7_simd_Suc [OF ts, of temp simd])
      have R: "big_integer_multiply_uint8_loop mul False i result temp to_shift =
          do { t \<leftarrow> temp1;
               (result1, temp2) \<leftarrow> big_integer_addition result t False;
               big_integer_multiply_uint8_loop mul False (i + 1) result1 temp2
                 (if i \<noteq> 0 then 0 else to_shift) }"
        using i bit
        by (simp add: big_integer_multiply_uint8_loop.simps [of mul False i] temp1_def Let_def)
      show ?thesis
      proof (cases temp1)
        case None
        then show ?thesis by (simp add: L R)
      next
        case (Some t)
        show ?thesis
        proof (cases "big_integer_addition result t False")
          case None
          then show ?thesis by (simp add: L R Some)
        next
          case (Some rt)
          obtain result1 temp2 where rt: "rt = (result1, temp2)" by (cases rt)
          have a: "big_integer_addition result t simd = Some (result1, temp2)"
            using Some rt by (simp add: add_sub_simd(1) [of _ _ simd])
          have "big_integer_multiply_uint8_loop mul simd (i + 1) result1 temp2
                   (if i \<noteq> 0 then 0 else to_shift)
              = big_integer_multiply_uint8_loop mul False (i + 1) result1 temp2
                   (if i \<noteq> 0 then 0 else to_shift)"
            using "1.IH"(1) [OF i bit _ refl a refl] \<open>temp1 = Some t\<close> t1 "1.prems" by simp
          then show ?thesis using Some rt \<open>temp1 = Some t\<close> by (simp add: L R)
        qed
      qed
    qed
  qed
qed

lemma big_integer_multiply_uint8_simd:
  "big_integer_multiply_uint8 v mul result temp simd
     = big_integer_multiply_uint8 v mul result temp False"
  by (simp add: big_integer_multiply_uint8_def big_integer_multiply_uint8_loop_simd [of 0 0 _ simd])

lemma big_integer_multiplication_loop_simd:
  "big_integer_multiplication_loop a b simd i res pp temp
     = big_integer_multiplication_loop a b False i res pp temp"
proof (induction a b simd i res pp temp rule: big_integer_multiplication_loop.induct)
  case (1 a b simd i res pp temp)
  show ?case
  proof (cases "i < big_length b")
    case False
    then show ?thesis
      by (simp add: big_integer_multiplication_loop.simps [of a b _ i])
  next
    case i: True
    define byte where "byte = mem b ! i"
    have g: "get_byte_value_of_big_integer b i = Some byte"
      using i by (simp add: get_byte_value_of_big_integer_def byte_def)
    show ?thesis
    proof (cases "byte = 0")
      case True
      have "big_integer_multiplication_loop a b simd (i + 1) res pp temp
          = big_integer_multiplication_loop a b False (i + 1) res pp temp"
        using "1.IH"(1) [OF i g True] .
      then show ?thesis using i g True
        by (simp add: big_integer_multiplication_loop.simps [of a b _ i])
    next
      case nz: False
      define step where "step = do {
               (pp1, temp1) \<leftarrow> big_integer_multiply_uint8 a byte pp temp False;
               pp2 \<leftarrow> big_integer_shl_byte_wise pp1 i;
               (res1, pp3) \<leftarrow> big_integer_addition res pp2 False;
               Some (res1, pp3, temp1) }"
      have L: "big_integer_multiplication_loop a b simd i res pp temp =
          do { (res1, pp3, temp1) \<leftarrow> step;
               big_integer_multiplication_loop a b simd (i + 1) res1 pp3 temp1 }"
        using i g nz
        by (simp add: big_integer_multiplication_loop.simps [of a b simd i] step_def
              big_integer_multiply_uint8_simd [of _ _ _ _ simd] add_sub_simd(1) [of _ _ simd]
              split_def)
      have R: "big_integer_multiplication_loop a b False i res pp temp =
          do { (res1, pp3, temp1) \<leftarrow> step;
               big_integer_multiplication_loop a b False (i + 1) res1 pp3 temp1 }"
        using i g nz
        by (simp add: big_integer_multiplication_loop.simps [of a b False i] step_def split_def)
      show ?thesis
      proof (cases step)
        case None
        then show ?thesis by (simp add: L R)
      next
        case (Some r)
        obtain res1 pp3 temp1 where r: "r = (res1, pp3, temp1)" by (cases r)
        obtain pp1 pp2 where
              m: "big_integer_multiply_uint8 a byte pp temp simd = Some (pp1, temp1)"
          and sh: "big_integer_shl_byte_wise pp1 i = Some pp2"
          and ad: "big_integer_addition res pp2 simd = Some (res1, pp3)"
          using Some r
          by (auto simp: step_def big_integer_multiply_uint8_simd [of _ _ _ _ simd]
                add_sub_simd(1) [of _ _ simd] split: Option.bind_splits)
        have "big_integer_multiplication_loop a b simd (i + 1) res1 pp3 temp1
            = big_integer_multiplication_loop a b False (i + 1) res1 pp3 temp1"
          using "1.IH"(2) [OF i g nz m refl sh ad refl] .
        then show ?thesis using Some r by (simp add: L R)
      qed
    qed
  qed
qed

lemma big_integer_multiplication_simd:
  "big_integer_multiplication a b res simd = big_integer_multiplication a b res False"
  by (simp add: big_integer_multiplication_def big_integer_multiplication_loop_simd [of _ _ simd])

lemma big_integer_multiply_int_neg256_to_256_simd:
  "big_integer_multiply_int_neg256_to_256 v mul result temp simd
     = big_integer_multiply_int_neg256_to_256 v mul result temp False"
  by (simp add: big_integer_multiply_int_neg256_to_256_def
        big_integer_multiply_uint8_simd [of _ _ _ _ simd])

lemma big_integer_greater_equal_int16_simd:
  "big_integer_greater_equal_int16 a b simd = big_integer_greater_equal_int16 a b False"
  by (simp add: big_integer_greater_equal_int16_def big_integer_is_zero_eq)

lemma big_integer_division_step_simd:
  "big_integer_division_step v dv simd i j st = big_integer_division_step v dv False i j st"
  by (simp add: big_integer_division_step_def big_integer_shl_bitwise_0_to_7_simd_Suc [of 0 _ simd]
        big_integer_greater_equal_int16_simd [of _ _ simd] add_sub_simd(2) [of _ _ simd]
        cong: if_cong)

lemma big_integer_division_bit_loop_simd:
  "big_integer_division_bit_loop v dv simd i j st = big_integer_division_bit_loop v dv False i j st"
proof (induction j arbitrary: st)
  case 0
  show ?case by simp
next
  case (Suc j)
  show ?case
    by (simp add: big_integer_division_step_simd [of _ _ simd] Suc cong: Option.bind_cong)
qed

lemma big_integer_division_byte_loop_simd:
  "big_integer_division_byte_loop v dv simd i st = big_integer_division_byte_loop v dv False i st"
proof (induction i arbitrary: st)
  case 0
  show ?case by simp
next
  case (Suc i)
  show ?case
    by (simp add: big_integer_division_bit_loop_simd [of _ _ simd] Suc cong: Option.bind_cong)
qed

lemma big_integer_division_int9_t_simd:
  "big_integer_division_int9_t v divisor temp_value temp_value2 simd
     = big_integer_division_int9_t v divisor temp_value temp_value2 False"
  by (simp add: big_integer_division_int9_t_def big_integer_division_byte_loop_simd [of _ _ simd])


lemma convert_numbers_step_simd:
  "convert_numbers_step base lookup z1 z2 simd i st
     = convert_numbers_step base lookup z1 z2 False i st"
  by (simp add: convert_numbers_step_def big_integer_multiply_uint8_simd [of _ _ _ _ simd]
        add_sub_simd(1) [of _ _ simd] big_integer_multiply_int_neg256_to_256_simd [of _ _ _ _ simd]
        cong: if_cong)

lemma convert_numbers_loop_simd:
  "convert_numbers_loop base lookup z1 z2 simd max_length i st
     = convert_numbers_loop base lookup z1 z2 False max_length i st"
proof (induction base lookup z1 z2 simd max_length i st rule: convert_numbers_loop.induct)
  case (1 base lookup z1 z2 simd max_length i st)
  show ?case
  proof (cases "i < max_length")
    case False
    then show ?thesis
      by (simp add: convert_numbers_loop.simps [of base lookup z1 z2 _ max_length i])
  next
    case True
    show ?thesis
    proof (cases "convert_numbers_step base lookup z1 z2 False i st")
      case None
      then show ?thesis using True
        by (simp add: convert_numbers_loop.simps [of base lookup z1 z2 _ max_length i]
              convert_numbers_step_simd [of _ _ _ _ simd])
    next
      case (Some st')
      then have "convert_numbers_step base lookup z1 z2 simd i st = Some st'"
        by (simp add: convert_numbers_step_simd [of _ _ _ _ simd])
      from "1.IH" [OF True this]
      show ?thesis using True Some
        by (simp add: convert_numbers_loop.simps [of base lookup z1 z2 _ max_length i]
              convert_numbers_step_simd [of _ _ _ _ simd])
    qed
  qed
qed

lemma convert_numbers_from_any_base_into_binary_simd:
  "convert_numbers_from_any_base_into_binary base alph z1 z2 z1_binary z2_binary simd
     = convert_numbers_from_any_base_into_binary base alph z1 z2 z1_binary z2_binary False"
  by (simp add: convert_numbers_from_any_base_into_binary_def
        convert_numbers_loop_simd [of _ _ _ _ simd])

lemma double_dabble_iteration_simd:
  "double_dabble_iteration conversion_trigger carry_add simd st
     = double_dabble_iteration conversion_trigger carry_add False st"
  by (simp add: double_dabble_iteration_def big_integer_shl_bitwise_0_to_7_simd_Suc [of 0 _ simd])

lemma double_dabble_loop_simd:
  "double_dabble_loop conversion_trigger carry_add simd n st
     = double_dabble_loop conversion_trigger carry_add False n st"
proof (induction n arbitrary: st)
  case 0
  show ?case by simp
next
  case (Suc n)
  show ?case
    by (simp add: double_dabble_iteration_simd [of _ _ simd] Suc cong: Option.bind_cong)
qed

lemma convert_big_integer_to_positive_base_simd:
  "convert_big_integer_to_positive_base v base alph buffer_length simd
     = convert_big_integer_to_positive_base v base alph buffer_length False"
  by (simp add: convert_big_integer_to_positive_base_def double_dabble_loop_simd [of _ _ simd])

text \<open>
  The \<open>while\<close> loop of the negative branch need not end, so the two settings are compared
  in both directions: whatever one returns, the other returns too.
\<close>

lemma convert_to_negative_base_loop_simd_le:
  assumes "convert_to_negative_base_loop base alph simd v temp temp2 written = Some r"
  shows "convert_to_negative_base_loop base alph simd' v temp temp2 written = Some r"
proof (rule convert_to_negative_base_loop.raw_induct
         [where P = "\<lambda>base alph simd v temp temp2 written r.
             convert_to_negative_base_loop base alph simd' v temp temp2 written = Some r",
          OF _ assms], goal_cases)
  case (1 f base alph simd v temp temp2 written r)
  have z: "big_integer_is_zero v simd = big_integer_is_zero v simd'"
    by (simp add: big_integer_is_zero_eq)
  have d: "big_integer_division_int9_t v base temp temp2 simd
         = big_integer_division_int9_t v base temp temp2 simd'"
    using big_integer_division_int9_t_simd [of v base temp temp2 simd]
      big_integer_division_int9_t_simd [of v base temp temp2 simd'] by simp
  show ?case
    apply (subst convert_to_negative_base_loop.simps)
    using 1(2) unfolding z d
    by (auto simp: Let_def intro!: 1(1) split: Option.bind_splits if_splits)
qed

lemma convert_to_negative_base_loop_simd:
  "convert_to_negative_base_loop base alph simd v temp temp2 written
     = convert_to_negative_base_loop base alph False v temp temp2 written"
proof (cases "convert_to_negative_base_loop base alph simd v temp temp2 written")
  case (Some r)
  then show ?thesis using convert_to_negative_base_loop_simd_le [OF Some, of False] by simp
next
  case None
  show ?thesis
  proof (cases "convert_to_negative_base_loop base alph False v temp temp2 written")
    case (Some r)
    then show ?thesis using convert_to_negative_base_loop_simd_le [OF Some, of simd] by simp
  next
    case n: None
    show ?thesis using None n by simp
  qed
qed

lemma convert_big_integer_to_negative_base_simd:
  "convert_big_integer_to_negative_base v base alph buffer_length simd
     = convert_big_integer_to_negative_base v base alph buffer_length False"
  by (simp add: convert_big_integer_to_negative_base_def big_integer_is_zero_eq
        convert_to_negative_base_loop_simd [of _ _ simd])

lemma convert_big_integer_to_any_base_simd:
  "convert_big_integer_to_any_base v base alph buffer_length simd
     = convert_big_integer_to_any_base v base alph buffer_length False"
  by (simp add: convert_big_integer_to_any_base_def
        convert_big_integer_to_positive_base_simd [of _ _ _ _ simd]
        convert_big_integer_to_negative_base_simd [of _ _ _ _ simd])

lemma arith_op_simd:
  "arith_op_any_base__binary_conversion base alph z1 z2 op simd
     = arith_op_any_base__binary_conversion base alph z1 z2 op False"
  by (simp add: arith_op_any_base__binary_conversion_def
        convert_numbers_from_any_base_into_binary_simd [of _ _ _ _ _ _ simd]
        add_sub_simd [of _ _ simd] big_integer_multiplication_simd [of _ _ _ simd]
        big_integer_is_zero_eq convert_big_integer_to_any_base_simd [of _ _ _ _ simd]
        cong: if_cong)


text \<open>
  Claim C1: for every base, alphabet, pair of digit strings and operator, the entry point
  called with \<open>use_simd = true\<close> has the same outcome as with \<open>use_simd = false\<close>: it
  writes the same result string, or neither call returns normally.
\<close>

theorem arith_op_any_base__binary_conversion_simd_eq_sisd:
  "arith_op_any_base__binary_conversion base alph z1 z2 op True
     = arith_op_any_base__binary_conversion base alph z1 z2 op False"
  by (rule arith_op_simd)

end
